theory Spec2Isabelle
  imports Main "HOL-Library.AList"
begin

section \<open>The switch node of \<^verbatim>\<open>nodes/core/logic/10-switch.js\<close>\<close>

text \<open>
  The router evaluates every incoming message against an ordered rule list and forwards it
  to the ports whose rule matched. The embedding follows the source function by function.
  Closure variables of \<^verbatim>\<open>SwitchNode\<close> (\<^verbatim>\<open>pendingCount\<close>, \<^verbatim>\<open>pendingIn\<close>, ...) and
  \<^verbatim>\<open>node.previousValue\<close> are the fields of one state record that every function takes and
  returns; the calls \<^verbatim>\<open>node.send\<close>, \<^verbatim>\<open>node.error\<close> and \<^verbatim>\<open>node.warn\<close> are events appended to
  the field \<open>out\<close>. What the file gets from the runtime (\<^verbatim>\<open>RED.util\<close>, \<^verbatim>\<open>RED.settings\<close>, the
  coercing comparisons of the language) is a record of functions, \<open>host\<close>.
\<close>

subsection \<open>Values\<close>

text \<open>
  JavaScript values. Numbers are the integers and \<open>NaN\<close>: the model covers the numbers that
  a double holds exactly (integers below \<open>2^53\<close> in size), which is what \<^verbatim>\<open>parts.index\<close> and
  \<^verbatim>\<open>parts.count\<close> are; fractions, infinities and larger numbers are outside it, and so are
  rule bounds that are no integers. \<open>JExpr\<close> is a prepared JSONata expression object.
\<close>

datatype jsval =
    JUndefined
  | JNull
  | JBool bool
  | JNum int
  | JNaN
  | JStr string
  | JArray "jsval list"
  | JBuffer "nat list"
  | JObject "(string \<times> jsval) list"
  | JExpr string

datatype jsnum = NaN | Fin int

text \<open>The sequence metadata \<^verbatim>\<open>msg.parts\<close>; \<open>None\<close> is a property the object does not have.\<close>

record seq_parts =
  parts_id :: "string option"
  parts_index :: "int option"
  parts_count :: "int option"

text \<open>
  A message: its own properties other than \<^verbatim>\<open>parts\<close>, and \<^verbatim>\<open>parts\<close>. Messages are values:
  the runtime hands every node its own copy, and \<^verbatim>\<open>RED.util.cloneMessage\<close> is the identity.
\<close>

record message =
  props :: "(string \<times> jsval) list"
  parts :: "seq_parts option"

type_synonym exn = string

text \<open>The keys of the table \<^verbatim>\<open>operators\<close>.\<close>

datatype operator =
    Op_eq | Op_neq | Op_lt | Op_lte | Op_gt | Op_gte | Op_btwn | Op_cont | Op_regex
  | Op_true | Op_false | Op_null | Op_nnull | Op_istype | Op_head | Op_tail | Op_index
  | Op_jsonata_exp | Op_else

text \<open>
  A rule \<^verbatim>\<open>{t, v, vt, v2, v2t, case}\<close>. An absent \<^verbatim>\<open>vt\<close> or \<^verbatim>\<open>v2t\<close> is the empty string
  (both are falsy), an absent \<^verbatim>\<open>v2\<close> is \<open>JUndefined\<close>, \<^verbatim>\<open>case\<close> is its truthiness.
\<close>

record rule =
  rule_t :: operator
  rule_v :: jsval
  rule_vt :: string
  rule_v2 :: jsval
  rule_v2t :: string
  rule_case :: bool

text \<open>
  The runtime. \<open>evaluateNodeProperty value type msg\<close> and
  \<open>evaluateJSONataExpression expr bindings msg\<close> return a value or throw (\<open>Inl\<close>);
  \<open>bindings\<close> is what \<^verbatim>\<open>exp.assign\<close> has bound to \<^verbatim>\<open>I\<close> and \<^verbatim>\<open>N\<close> on that expression object.
  \<open>generateId k\<close> is the identity the \<open>k\<close>-th call of \<^verbatim>\<open>RED.util.generateId\<close> returns.
  \<open>loose_eq\<close> is \<^verbatim>\<open>==\<close>, \<open>abstract_lt a b\<close> the relational comparison \<^verbatim>\<open>a < b\<close> of the language
  (true, false or undefined), \<open>to_str\<close> the conversion to a string, \<open>to_number\<close> the
  conversion \<^verbatim>\<open>Number\<close> of a string or an object, \<open>regexp_match s b i\<close> is
  \<^verbatim>\<open>s.match(new RegExp(b, i ? 'i' : ''))\<close>, which throws on a malformed pattern, and
  \<open>json_parses\<close> tells whether \<^verbatim>\<open>JSON.parse\<close> returns.
\<close>

record host =
  evaluateNodeProperty :: "jsval \<Rightarrow> string \<Rightarrow> message \<Rightarrow> exn + jsval"
  evaluateJSONataExpression :: "jsval \<Rightarrow> (int option \<times> int option) option \<Rightarrow> message \<Rightarrow> exn + jsval"
  prepareJSONataExpression :: "jsval \<Rightarrow> exn + jsval"
  generateId :: "nat \<Rightarrow> string"
  nodeMessageBufferMaxLength :: "int option"
  loose_eq :: "jsval \<Rightarrow> jsval \<Rightarrow> bool"
  abstract_lt :: "jsval \<Rightarrow> jsval \<Rightarrow> bool option"
  to_str :: "jsval \<Rightarrow> string"
  to_number :: "jsval \<Rightarrow> jsnum"
  regexp_match :: "string \<Rightarrow> jsval \<Rightarrow> bool \<Rightarrow> exn + bool"
  json_parses :: "jsval \<Rightarrow> bool"

subsection \<open>Numbers\<close>

fun js_Number :: "host \<Rightarrow> jsval \<Rightarrow> jsnum" where
  "js_Number h JUndefined = NaN"
| "js_Number h JNull = Fin 0"
| "js_Number h (JBool b) = Fin (if b then 1 else 0)"
| "js_Number h (JNum k) = Fin k"
| "js_Number h JNaN = NaN"
| "js_Number h x = to_number h x"


text \<open>A property of \<^verbatim>\<open>parts\<close> read as a number: an absent one is \<^verbatim>\<open>undefined\<close>, hence \<open>NaN\<close>.\<close>

fun num_of_field :: "int option \<Rightarrow> jsnum" where
  "num_of_field None = NaN"
| "num_of_field (Some k) = Fin k"

fun num_lt :: "jsnum \<Rightarrow> jsnum \<Rightarrow> bool" where
  "num_lt (Fin a) (Fin b) = (a < b)"
| "num_lt _ _ = False"

fun num_le :: "jsnum \<Rightarrow> jsnum \<Rightarrow> bool" where
  "num_le (Fin a) (Fin b) = (a \<le> b)"
| "num_le _ _ = False"

fun num_sub :: "jsnum \<Rightarrow> jsnum \<Rightarrow> jsnum" where
  "num_sub (Fin a) (Fin b) = Fin (a - b)"
| "num_sub _ _ = NaN"

subsection \<open>The operator table\<close>

fun typeof_js :: "jsval \<Rightarrow> string" where
  "typeof_js JUndefined = ''undefined''"
| "typeof_js (JBool b) = ''boolean''"
| "typeof_js (JNum k) = ''number''"
| "typeof_js JNaN = ''number''"
| "typeof_js (JStr s) = ''string''"
| "typeof_js x = ''object''"

fun isArray :: "jsval \<Rightarrow> bool" where
  "isArray (JArray xs) = True"
| "isArray x = False"

fun isBuffer :: "jsval \<Rightarrow> bool" where
  "isBuffer (JBuffer bs) = True"
| "isBuffer x = False"

text \<open>\<^verbatim>\<open>s.indexOf(b) != -1\<close>: \<open>b\<close> occurs in \<open>s\<close>.\<close>

fun indexOf_found :: "string \<Rightarrow> string \<Rightarrow> bool" where
  "indexOf_found [] b = (b = [])"
| "indexOf_found (x # xs) b = (if take (length b) (x # xs) = b then True else indexOf_found xs b)"

text \<open>
  \<open>operators h t a b c d parts\<close> is \<^verbatim>\<open>operators[t](a, b, c, d, parts)\<close>, read as a condition:
  the truthiness of what the operator returns, or the exception it throws. The positional
  operators read \<^verbatim>\<open>parts.index\<close> and \<^verbatim>\<open>parts.count\<close>; with \<^verbatim>\<open>parts\<close> undefined that read throws
  a \<^verbatim>\<open>TypeError\<close>.
\<close>

definition type_error :: exn where
  "type_error = ''TypeError: Cannot read property of undefined''"

fun operators ::
  "host \<Rightarrow> operator \<Rightarrow> jsval \<Rightarrow> jsval \<Rightarrow> jsval \<Rightarrow> bool \<Rightarrow> seq_parts option \<Rightarrow> exn + bool" where
  "operators h Op_eq a b c d ps = Inr (loose_eq h a b)"
| "operators h Op_neq a b c d ps = Inr (\<not> loose_eq h a b)"
| "operators h Op_lt a b c d ps = Inr (abstract_lt h a b = Some True)"
| "operators h Op_lte a b c d ps = Inr (abstract_lt h b a = Some False)"
| "operators h Op_gt a b c d ps = Inr (abstract_lt h b a = Some True)"
| "operators h Op_gte a b c d ps = Inr (abstract_lt h a b = Some False)"
| "operators h Op_btwn a b c d ps =
     Inr (abstract_lt h a b = Some False \<and> abstract_lt h c a = Some False)"
| "operators h Op_cont a b c d ps = Inr (indexOf_found (to_str h a) (to_str h b))"
| "operators h Op_regex a b c d ps = regexp_match h (to_str h a) b d"
| "operators h Op_true a b c d ps = Inr (a = JBool True)"
| "operators h Op_false a b c d ps = Inr (a = JBool False)"
| "operators h Op_null a b c d ps = Inr (a = JUndefined \<or> a = JNull)"
| "operators h Op_nnull a b c d ps = Inr (a \<noteq> JUndefined \<and> a \<noteq> JNull)"
| "operators h Op_istype a b c d ps =
     Inr (if b = JStr ''array'' then isArray a
          else if b = JStr ''buffer'' then isBuffer a
          else if b = JStr ''json'' then json_parses h a
          else if b = JStr ''null'' then a = JNull
          else JStr (typeof_js a) = b \<and> \<not> isArray a \<and> \<not> isBuffer a \<and> a \<noteq> JNull)"
| "operators h Op_head a b c d None = Inl type_error"
| "operators h Op_head a b c d (Some p) =
     Inr (num_lt (num_of_field (parts_index p)) (js_Number h b))"
| "operators h Op_tail a b c d None = Inl type_error"
| "operators h Op_tail a b c d (Some p) =
     Inr (num_le (num_sub (num_of_field (parts_count p)) (js_Number h b))
            (num_of_field (parts_index p)))"
| "operators h Op_index a b c d None = Inl type_error"
| "operators h Op_index a b c d (Some p) =
     Inr (num_le (js_Number h b) (num_of_field (parts_index p)) \<and>
          num_le (num_of_field (parts_index p)) (js_Number h c))"
| "operators h Op_jsonata_exp a b c d ps = Inr (b = JBool True)"
| "operators h Op_else a b c d ps = Inr (a = JBool True)"

subsection \<open>The node and its state\<close>

text \<open>
  What the constructor leaves on the node and in its closure and never changes afterwards:
  the normalised rules, the property under test, \<^verbatim>\<open>checkall\<close>, \<^verbatim>\<open>repair\<close> and \<^verbatim>\<open>needsCount\<close>.
\<close>

record node =
  rules :: "rule list"
  property :: jsval
  propertyType :: string
  checkall :: string
  repair :: bool
  needsCount :: bool

text \<open>A group of \<^verbatim>\<open>pendingIn\<close>: \<^verbatim>\<open>{count, msgs, seq_no}\<close>, \<open>count = None\<close> for \<^verbatim>\<open>undefined\<close>.\<close>

record in_group =
  count :: "int option"
  msgs :: "message list"
  seq_no :: int

datatype event =
    Send "message option list"
  | Error_too_many message
  | Error_invalid_expr exn
  | Warn exn
  | Uncaught exn

text \<open>
  The mutable state of one instance. The objects \<^verbatim>\<open>pendingIn\<close>, \<^verbatim>\<open>pendingOut\<close> and \<^verbatim>\<open>received\<close>
  are association lists in insertion order (a group of \<^verbatim>\<open>pendingOut\<close> is its list
  \<^verbatim>\<open>onwards\<close>); group identities are their keys. \<open>assigned\<close> holds, per rule index, what
  \<^verbatim>\<open>exp.assign\<close> has bound to \<^verbatim>\<open>I\<close> and \<^verbatim>\<open>N\<close> on the rule's expression object: the binding stays
  on the object for later messages. \<open>idcalls\<close> counts the calls of \<^verbatim>\<open>RED.util.generateId\<close>,
  \<open>out\<close> lists the calls of \<^verbatim>\<open>node.send\<close>, \<^verbatim>\<open>node.error\<close> and \<^verbatim>\<open>node.warn\<close> in order; the event
  \<open>Uncaught\<close> is an exception that no \<^verbatim>\<open>catch\<close> of the file takes: the handler of \<^verbatim>\<open>input\<close>
  ends by throwing it to the runtime.
\<close>

type_synonym bindings = "(nat \<times> (int option \<times> int option)) list"

record switch_state =
  previousValue :: jsval
  pendingCount :: int
  pendingId :: int
  pendingIn :: "(string \<times> in_group) list"
  pendingOut :: "(string \<times> message option list list) list"
  received :: "(string \<times> int) list"
  assigned :: bindings
  idcalls :: nat
  out :: "event list"

definition getMaxKeptCount :: "host \<Rightarrow> int" where
  "getMaxKeptCount h = (case nodeMessageBufferMaxLength h of Some k \<Rightarrow> k | None \<Rightarrow> 0)"

definition clearPending :: "switch_state \<Rightarrow> switch_state" where
  "clearPending st =
     st\<lparr>pendingCount := 0, pendingId := 0, pendingIn := [], pendingOut := [], received := []\<rparr>"

text \<open>
  The three objects are created as \<^verbatim>\<open>{}\<close>, so \<^verbatim>\<open>id in pendingIn\<close> is also true for an identity
  that names a property inherited from \<^verbatim>\<open>Object.prototype\<close>. For such an identity the code
  creates no group: \<^verbatim>\<open>pendingIn[id]\<close> is the inherited function (or the prototype itself),
  its \<^verbatim>\<open>msgs\<close> is \<^verbatim>\<open>undefined\<close>, and \<^verbatim>\<open>push\<close> throws a \<^verbatim>\<open>TypeError\<close>; likewise \<^verbatim>\<open>onwards\<close> in
  \<^verbatim>\<open>sendGroupMessages\<close>.
\<close>

definition inherited :: "string \<Rightarrow> bool" where
  "inherited gid =
     (gid \<in> set [''constructor'', ''toString'', ''toLocaleString'', ''valueOf'', ''hasOwnProperty'',
                 ''isPrototypeOf'', ''propertyIsEnumerable'', ''__proto__'', ''__defineGetter__'',
                 ''__defineSetter__'', ''__lookupGetter__'', ''__lookupSetter__''])"

subsection \<open>Resolving the operands\<close>

text \<open>
  A message pass ends early in two ways: \<^verbatim>\<open>node.error(invalid-expr); return\<close> (\<open>Invalid_expr\<close>),
  or an exception that the outer \<^verbatim>\<open>catch\<close> hands to \<^verbatim>\<open>node.warn\<close> (\<open>Thrown\<close>).
\<close>

datatype abort = Invalid_expr exn | Thrown exn

definition has_parts :: "message \<Rightarrow> bool" where
  "has_parts msg =
     (case parts msg of None \<Rightarrow> False
      | Some p \<Rightarrow> parts_id p \<noteq> None \<and> parts_index p \<noteq> None)"

definition getProperty :: "host \<Rightarrow> node \<Rightarrow> message \<Rightarrow> exn + jsval" where
  "getProperty h n msg =
     (if propertyType n = ''jsonata''
      then evaluateJSONataExpression h (property n) None msg
      else evaluateNodeProperty h (property n) (propertyType n) msg)"

text \<open>
  The block \<^verbatim>\<open>//// getV1\<close> for rule number \<open>i\<close>; \<open>prev\<close> is \<^verbatim>\<open>node.previousValue\<close> and \<open>bs\<close> the
  bindings of the expression objects, returned updated.
\<close>

definition getV1 ::
  "host \<Rightarrow> jsval \<Rightarrow> bindings \<Rightarrow> nat \<Rightarrow> message \<Rightarrow> rule \<Rightarrow> bool \<Rightarrow> bindings \<times> (abort + jsval)" where
  "getV1 h prev bs i msg r hasParts =
     (if rule_vt r = ''prev'' then (bs, Inr prev)
      else if rule_vt r = ''jsonata'' then
        (let bs' = (if rule_t r = Op_jsonata_exp \<and> hasParts
                    then (case parts msg of
                            Some p \<Rightarrow> AList.update i (parts_index p, parts_count p) bs
                          | None \<Rightarrow> bs)
                    else bs)
         in case evaluateJSONataExpression h (rule_v r) (map_of bs' i) msg of
              Inl e \<Rightarrow> (bs', Inl (Invalid_expr e))
            | Inr x \<Rightarrow> (bs', Inr x))
      else if rule_vt r = ''json'' then (bs, Inr (JStr ''json''))
      else if rule_vt r = ''null'' then (bs, Inr (JStr ''null''))
      else (case evaluateNodeProperty h (rule_v r) (rule_vt r) msg of
              Inl e \<Rightarrow> (bs, Inr JUndefined)
            | Inr x \<Rightarrow> (bs, Inr x)))"

text \<open>The block \<^verbatim>\<open>//// getV2\<close>.\<close>

definition getV2 :: "host \<Rightarrow> jsval \<Rightarrow> message \<Rightarrow> rule \<Rightarrow> abort + jsval" where
  "getV2 h prev msg r =
     (if rule_v2t r = ''prev'' then Inr prev
      else if rule_v2t r = ''jsonata'' then
        (case evaluateJSONataExpression h (rule_v2 r) None msg of
           Inl e \<Rightarrow> Inl (Invalid_expr e)
         | Inr x \<Rightarrow> Inr x)
      else if rule_v2 r \<noteq> JUndefined then
        (case evaluateNodeProperty h (rule_v2 r) (rule_v2t r) msg of
           Inl e \<Rightarrow> Inr JUndefined
         | Inr x \<Rightarrow> Inr x)
      else Inr (rule_v2 r))"

subsection \<open>The rule loop\<close>

text \<open>
  One turn of the loop over \<^verbatim>\<open>node.rules\<close>, for rule number \<open>i\<close>. The loop variables are the
  bindings, \<^verbatim>\<open>elseflag\<close> and \<^verbatim>\<open>onward\<close> (\<open>None\<close> is \<^verbatim>\<open>null\<close>); the turn returns them updated,
  with a flag that tells whether it ended in \<^verbatim>\<open>break\<close>.
\<close>

definition rule_turn ::
  "host \<Rightarrow> node \<Rightarrow> jsval \<Rightarrow> message \<Rightarrow> bool \<Rightarrow> jsval \<Rightarrow> nat \<Rightarrow> rule \<Rightarrow>
   bindings \<Rightarrow> bool \<Rightarrow> message option list \<Rightarrow>
   bindings \<times> (abort + (bool \<times> message option list \<times> bool))" where
  "rule_turn h n prev msg hasParts prop i r bs elseflag onward =
     (case getV1 h prev bs i msg r hasParts of
        (bs', Inl a) \<Rightarrow> (bs', Inl a)
      | (bs', Inr v1) \<Rightarrow>
          (case getV2 h prev msg r of
             Inl a \<Rightarrow> (bs', Inl a)
           | Inr v2 \<Rightarrow>
               (let test = (if rule_t r = Op_else then JBool elseflag else prop);
                    elseflag1 = (if rule_t r = Op_else then True else elseflag)
                in case operators h (rule_t r) test v1 v2 (rule_case r) (parts msg) of
                     Inl e \<Rightarrow> (bs', Inl (Thrown e))
                   | Inr matched \<Rightarrow>
                       if matched
                       then (bs', Inr (False, onward @ [Some msg], checkall n = ''false''))
                       else (bs', Inr (elseflag1, onward @ [None], False)))))"

fun rules_loop ::
  "host \<Rightarrow> node \<Rightarrow> jsval \<Rightarrow> message \<Rightarrow> bool \<Rightarrow> jsval \<Rightarrow> nat \<Rightarrow> rule list \<Rightarrow>
   bindings \<Rightarrow> bool \<Rightarrow> message option list \<Rightarrow>
   bindings \<times> (abort + (bool \<times> message option list))" where
  "rules_loop h n prev msg hasParts prop i [] bs elseflag onward = (bs, Inr (elseflag, onward))"
| "rules_loop h n prev msg hasParts prop i (r # rs) bs elseflag onward =
     (case rule_turn h n prev msg hasParts prop i r bs elseflag onward of
        (bs', Inl a) \<Rightarrow> (bs', Inl a)
      | (bs', Inr (elseflag', onward', stop)) \<Rightarrow>
          if stop then (bs', Inr (elseflag', onward'))
          else rules_loop h n prev msg hasParts prop (Suc i) rs bs' elseflag' onward')"

subsection \<open>The join side: \<^verbatim>\<open>sendGroup\<close> and \<^verbatim>\<open>sendGroupMessages\<close>\<close>

text \<open>
  \<^verbatim>\<open>onward[j]\<close> for a decision array that the loop left shorter than \<open>j\<close> is \<^verbatim>\<open>undefined\<close>:
  it is not \<^verbatim>\<open>null\<close> (the test of the counting loop) and it is falsy (the test of the
  sending loop).
\<close>

definition slot_is_null :: "message option list \<Rightarrow> nat \<Rightarrow> bool" where
  "slot_is_null onward j = (j < length onward \<and> onward ! j = None)"

definition slot_msg :: "message option list \<Rightarrow> nat \<Rightarrow> message option" where
  "slot_msg onward j = (if j < length onward then onward ! j else None)"

definition group_counts :: "message option list list \<Rightarrow> nat \<Rightarrow> int list" where
  "group_counts onwards port_count =
     map (\<lambda>j. int (length (filter (\<lambda>onward. \<not> slot_is_null onward j) onwards))) [0..<port_count]"

text \<open>The clone of \<open>m\<close> with \<^verbatim>\<open>parts.id\<close>, \<^verbatim>\<open>parts.index\<close> and \<^verbatim>\<open>parts.count\<close> rewritten.\<close>

definition set_parts :: "message \<Rightarrow> string \<Rightarrow> int \<Rightarrow> int \<Rightarrow> message" where
  "set_parts m gid k c = m\<lparr>parts := Some \<lparr>parts_id = Some gid, parts_index = Some k, parts_count = Some c\<rparr>\<rparr>"

text \<open>The second loop of \<^verbatim>\<open>sendGroup\<close>: one \<^verbatim>\<open>node.send(ports)\<close> per decision array.\<close>

fun sendGroup_loop ::
  "string list \<Rightarrow> int list \<Rightarrow> nat \<Rightarrow> int list \<Rightarrow> message option list list \<Rightarrow> event list" where
  "sendGroup_loop ids counts port_count indexes [] = []"
| "sendGroup_loop ids counts port_count indexes (onward # rest) =
     Send (map (\<lambda>j. case slot_msg onward j of
                       Some m \<Rightarrow> Some (set_parts m (ids ! j) (indexes ! j) (counts ! j))
                     | None \<Rightarrow> None) [0..<port_count])
     # sendGroup_loop ids counts port_count
         (map (\<lambda>j. if slot_msg onward j = None then indexes ! j else indexes ! j + 1) [0..<port_count])
         rest"

definition sendGroup ::
  "host \<Rightarrow> switch_state \<Rightarrow> message option list list \<Rightarrow> nat \<Rightarrow> switch_state" where
  "sendGroup h st onwards port_count =
     (let counts = group_counts onwards port_count;
          ids = map (\<lambda>j. generateId h (idcalls st + j)) [0..<port_count];
          indexes = replicate port_count 0
      in st\<lparr>idcalls := idcalls st + port_count,
             out := out st @ sendGroup_loop ids counts port_count indexes onwards\<rparr>)"

text \<open>
  \<^verbatim>\<open>sendGroupMessages\<close> is called for a message that has \<^verbatim>\<open>parts\<close> with an \<^verbatim>\<open>id\<close>; the
  other cases are not reached. The call stands in the \<^verbatim>\<open>try\<close> block of \<^verbatim>\<open>processMessage\<close>: for
  an inherited identity the \<^verbatim>\<open>TypeError\<close> of \<^verbatim>\<open>onwards.push\<close> goes to \<^verbatim>\<open>node.warn\<close>. (Before it
  throws, the code stores a string under that identity in \<^verbatim>\<open>received\<close>; only a later call
  for the same identity reads it, and that call throws at the same place.) No message
  reaches this case either: a fragment comes here after \<^verbatim>\<open>addMessageToGroup\<close> has taken it.
\<close>

definition sendGroupMessages ::
  "host \<Rightarrow> switch_state \<Rightarrow> message option list \<Rightarrow> message \<Rightarrow> switch_state" where
  "sendGroupMessages h st onward msg =
     (case parts msg of
        None \<Rightarrow> st
      | Some p \<Rightarrow>
          (let gid = (case parts_id p of Some g \<Rightarrow> g | None \<Rightarrow> ''undefined'');
               r = (case map_of (received st) gid of Some k \<Rightarrow> k | None \<Rightarrow> 0) + 1;
               thrown = inherited gid;
               send_ok = (Some r = parts_count p);
               onwards = (case map_of (pendingOut st) gid of Some os \<Rightarrow> os | None \<Rightarrow> []) @ [onward];
               st1 = st\<lparr>received := AList.update gid r (received st),
                        pendingOut := AList.update gid onwards (pendingOut st),
                        pendingCount := pendingCount st + 1\<rparr>;
               st2 = (if send_ok
                      then (let st' = sendGroup h st1 onwards (length onward)
                            in st'\<lparr>pendingCount := pendingCount st' - int (length onward),
                                    pendingOut := AList.delete gid (pendingOut st'),
                                    received := AList.delete gid (received st')\<rparr>)
                      else st1);
               max_msgs = getMaxKeptCount h
           in if thrown then st\<lparr>out := out st @ [Warn type_error]\<rparr>
              else if max_msgs > 0 \<and> pendingCount st2 > max_msgs
              then (clearPending st2)\<lparr>out := out st2 @ [Error_too_many msg]\<rparr>
              else st2))"

subsection \<open>One message pass\<close>

text \<open>
  The \<^verbatim>\<open>try\<close> block of \<^verbatim>\<open>processMessage\<close> up to the end of the loop: resolve the property
  under test and run the rule loop. The result is the bindings, and either the way the
  pass ended early or the property and the decision array \<^verbatim>\<open>onward\<close>.
\<close>

definition evaluate ::
  "host \<Rightarrow> node \<Rightarrow> switch_state \<Rightarrow> message \<Rightarrow> bindings \<times> (abort + (jsval \<times> message option list))" where
  "evaluate h n st msg =
     (case getProperty h n msg of
        Inl e \<Rightarrow> (assigned st, Inl (Thrown e))
      | Inr prop \<Rightarrow>
          (case rules_loop h n (previousValue st) msg (has_parts msg) prop 0 (rules n)
                  (assigned st) True [] of
             (bs, Inl a) \<Rightarrow> (bs, Inl a)
           | (bs, Inr (elseflag, onward)) \<Rightarrow> (bs, Inr (prop, onward))))"

text \<open>
  The body of \<^verbatim>\<open>processMessage\<close> after the test that buffers a fragment: evaluate, then
  store \<^verbatim>\<open>previousValue\<close> and send, or report and drop the message.
\<close>

definition routeMessage :: "host \<Rightarrow> node \<Rightarrow> switch_state \<Rightarrow> message \<Rightarrow> switch_state" where
  "routeMessage h n st msg =
     (case evaluate h n st msg of
        (bs, Inl (Invalid_expr e)) \<Rightarrow> st\<lparr>assigned := bs, out := out st @ [Error_invalid_expr e]\<rparr>
      | (bs, Inl (Thrown e)) \<Rightarrow> st\<lparr>assigned := bs, out := out st @ [Warn e]\<rparr>
      | (bs, Inr (prop, onward)) \<Rightarrow>
          (if repair n \<and> has_parts msg
           then sendGroupMessages h (st\<lparr>assigned := bs, previousValue := prop\<rparr>) onward msg
           else st\<lparr>assigned := bs, previousValue := prop, out := out st @ [Send onward]\<rparr>))"

subsection \<open>The split side: \<^verbatim>\<open>addMessageToGroup\<close> and \<^verbatim>\<open>addMessageToPending\<close>\<close>

text \<open>
  The group of an identity: the one in \<^verbatim>\<open>pendingIn\<close>, or the one that \<^verbatim>\<open>addMessageToGroup\<close>
  creates for an identity that has none.
\<close>

definition group_of :: "switch_state \<Rightarrow> string \<Rightarrow> in_group" where
  "group_of st gid =
     (case map_of (pendingIn st) gid of
        Some g \<Rightarrow> g
      | None \<Rightarrow> \<lparr>count = None, msgs = [], seq_no = pendingId st\<rparr>)"

text \<open>
  \<^verbatim>\<open>addMessageToGroup\<close> throws for an inherited identity, before it changes anything.
  Otherwise it returns the group object it pushed the message on. After
  \<^verbatim>\<open>clearPending\<close> that object is no longer in \<^verbatim>\<open>pendingIn\<close>, but the function still holds
  it, stores the count on it and returns it: the second component is that object, and
  \<^verbatim>\<open>pendingIn\<close> gets the count only when the group is still in it.
\<close>

definition addMessageToGroup ::
  "host \<Rightarrow> switch_state \<Rightarrow> string \<Rightarrow> message \<Rightarrow> seq_parts \<Rightarrow> exn + switch_state \<times> in_group" where
  "addMessageToGroup h st gid msg p =
     (let st1 = (case map_of (pendingIn st) gid of
                   Some g \<Rightarrow> st
                 | None \<Rightarrow> st\<lparr>pendingIn := AList.update gid (group_of st gid) (pendingIn st),
                              pendingId := pendingId st + 1\<rparr>);
          grp = group_of st gid;
          group1 = grp\<lparr>msgs := msgs grp @ [msg]\<rparr>;
          st2 = st1\<lparr>pendingIn := AList.update gid group1 (pendingIn st1),
                   pendingCount := pendingCount st1 + 1\<rparr>;
          max_msgs = getMaxKeptCount h;
          group2 = (case parts_count p of Some c \<Rightarrow> group1\<lparr>count := Some c\<rparr> | None \<Rightarrow> group1)
      in if inherited gid then Inl type_error
         else if max_msgs > 0 \<and> pendingCount st2 > max_msgs
         then Inr ((clearPending st2)\<lparr>out := out st2 @ [Error_too_many msg]\<rparr>, group2)
         else Inr (st2\<lparr>pendingIn := AList.update gid group2 (pendingIn st2)\<rparr>, group2))"

text \<open>\<^verbatim>\<open>msg.parts.count = count\<close>.\<close>

definition set_count :: "int option \<Rightarrow> message \<Rightarrow> message" where
  "set_count c m = m\<lparr>parts := map_option (\<lambda>p. p\<lparr>parts_count := c\<rparr>) (parts m)\<rparr>"

text \<open>
  The loop of \<^verbatim>\<open>addMessageToPending\<close> over \<^verbatim>\<open>msgs\<close>: every message gets the count and goes
  through \<^verbatim>\<open>processMessage(msg, false)\<close>, which is \<open>routeMessage\<close>.
\<close>

fun release_loop ::
  "host \<Rightarrow> node \<Rightarrow> int option \<Rightarrow> message list \<Rightarrow> switch_state \<Rightarrow> switch_state" where
  "release_loop h n c [] st = st"
| "release_loop h n c (m # ms) st = release_loop h n c ms (routeMessage h n st (set_count c m))"

text \<open>
  \<^verbatim>\<open>addMessageToPending\<close> is called for a message with \<^verbatim>\<open>parts\<close>; without them it is not
  reached. It has no \<^verbatim>\<open>try\<close>: what \<^verbatim>\<open>addMessageToGroup\<close> throws, it throws.
\<close>

definition addMessageToPending ::
  "host \<Rightarrow> node \<Rightarrow> switch_state \<Rightarrow> message \<Rightarrow> exn + switch_state \<times> bool" where
  "addMessageToPending h n st msg =
     (case parts msg of
        None \<Rightarrow> Inr (st, False)
      | Some p \<Rightarrow>
          (case parts_id p of
             None \<Rightarrow> Inr (st, False)
           | Some gid \<Rightarrow>
               (if parts_index p = None then Inr (st, False)
                else (case addMessageToGroup h st gid msg p of
                        Inl e \<Rightarrow> Inl e
                      | Inr (st1, grp) \<Rightarrow>
                          if count grp = Some (int (length (msgs grp)))
                          then (let st2 = release_loop h n (count grp) (msgs grp) st1
                                in Inr (st2\<lparr>pendingCount := pendingCount st2 - int (length (msgs grp)),
                                            pendingIn := AList.delete gid (pendingIn st2)\<rparr>, True))
                          else Inr (st1, True)))))"

subsection \<open>The entry points\<close>

text \<open>
  \<^verbatim>\<open>processMessage\<close> calls \<^verbatim>\<open>addMessageToPending\<close> before its \<^verbatim>\<open>try\<close> block: an exception of
  that call leaves \<^verbatim>\<open>processMessage\<close>, and the handler of \<^verbatim>\<open>input\<close>, uncaught.
\<close>

definition processMessage ::
  "host \<Rightarrow> node \<Rightarrow> switch_state \<Rightarrow> message \<Rightarrow> bool \<Rightarrow> switch_state" where
  "processMessage h n st msg checkParts =
     (if needsCount n \<and> checkParts \<and> has_parts msg
      then (case addMessageToPending h n st msg of
              Inl e \<Rightarrow> st\<lparr>out := out st @ [Uncaught e]\<rparr>
            | Inr (st', added) \<Rightarrow> if added then st' else routeMessage h n st' msg)
      else routeMessage h n st msg)"

text \<open>The handlers of \<^verbatim>\<open>input\<close> and \<^verbatim>\<open>close\<close>.\<close>

definition on_input :: "host \<Rightarrow> node \<Rightarrow> switch_state \<Rightarrow> message \<Rightarrow> switch_state" where
  "on_input h n st msg = processMessage h n st msg True"

definition on_close :: "switch_state \<Rightarrow> switch_state" where
  "on_close st = clearPending st"

fun inputs :: "host \<Rightarrow> node \<Rightarrow> switch_state \<Rightarrow> message list \<Rightarrow> switch_state" where
  "inputs h n st [] = st"
| "inputs h n st (m # ms) = inputs h n (on_input h n st m) ms"

subsection \<open>The constructor\<close>



definition initial_state :: switch_state where
  "initial_state =
     \<lparr>previousValue = JNull, pendingCount = 0, pendingId = 0, pendingIn = [], pendingOut = [],
      received = [], assigned = [], idcalls = 0, out = []\<rparr>"


subsection \<open>A runtime for concrete evaluations\<close>

text \<open>
  A small instance of the runtime: a property of kind \<^verbatim>\<open>msg\<close> is looked up by name among
  the message's properties (an absent one is \<^verbatim>\<open>undefined\<close>), every other kind returns the
  stored literal; the expression \<^verbatim>\<open>true\<close> evaluates and every other one fails, as a call of a function that is
  not defined (\<^verbatim>\<open>$limit()\<close>, \<^verbatim>\<open>$x()\<close>) does; no buffer bound is
  configured. The comparisons are those of the language on primitive values of one kind
  (and \<^verbatim>\<open>null == undefined\<close>); they do not coerce, and no evaluation below depends on a
  coercion.
\<close>

definition demo_host :: host where
  "demo_host =
     \<lparr>evaluateNodeProperty =
        (\<lambda>x ty m. if ty = ''msg''
                   then (case x of
                           JStr k \<Rightarrow> (case map_of (props m) k of Some y \<Rightarrow> Inr y | None \<Rightarrow> Inr JUndefined)
                         | _ \<Rightarrow> Inl ''Invalid property expression'')
                   else Inr x),
      evaluateJSONataExpression =
        (\<lambda>e b m. if e = JExpr ''true'' then Inr (JBool True) else Inl ''evaluation failed''),
      prepareJSONataExpression =
        (\<lambda>x. case x of JStr s \<Rightarrow> Inr (JExpr s) | _ \<Rightarrow> Inl ''not an expression''),
      generateId = (\<lambda>k. replicate (Suc k) CHR ''g''),
      nodeMessageBufferMaxLength = None,
      loose_eq = (\<lambda>a b. (a = b \<and> a \<noteq> JNaN)
                        \<or> ((a = JNull \<or> a = JUndefined) \<and> (b = JNull \<or> b = JUndefined))),
      abstract_lt = (\<lambda>a b. case (a, b) of (JNum x, JNum y) \<Rightarrow> Some (x < y) | _ \<Rightarrow> None),
      to_str = (\<lambda>x. case x of JStr s \<Rightarrow> s | _ \<Rightarrow> []),
      to_number = (\<lambda>x. NaN),
      regexp_match =
        (\<lambda>s b i. case b of JStr p \<Rightarrow> (if p = ''('' then Inl ''Invalid regular expression''
                                       else Inr (indexOf_found s p))
                  | _ \<Rightarrow> Inl ''Invalid regular expression''),
      json_parses = (\<lambda>x. False)\<rparr>"

definition mk_rule :: "operator \<Rightarrow> jsval \<Rightarrow> string \<Rightarrow> rule" where
  "mk_rule t x ty = \<lparr>rule_t = t, rule_v = x, rule_vt = ty, rule_v2 = JUndefined, rule_v2t = [], rule_case = False\<rparr>"

definition mk_node :: "rule list \<Rightarrow> string \<Rightarrow> bool \<Rightarrow> bool \<Rightarrow> node" where
  "mk_node rs ca rp nc =
     \<lparr>rules = rs, property = JStr ''payload'', propertyType = ''msg'', checkall = ca,
      repair = rp, needsCount = nc\<rparr>"

definition fragment :: "jsval \<Rightarrow> string \<Rightarrow> int \<Rightarrow> int option \<Rightarrow> message" where
  "fragment x gid k c =
     \<lparr>props = [(''payload'', x)],
      parts = Some \<lparr>parts_id = Some gid, parts_index = Some k, parts_count = c\<rparr>\<rparr>"

definition plain :: "jsval \<Rightarrow> message" where
  "plain x = \<lparr>props = [(''payload'', x)], parts = None\<rparr>"

text \<open>What a pass that ends early reports: \<^verbatim>\<open>node.error\<close> or \<^verbatim>\<open>node.warn\<close>.\<close>

fun report :: "abort \<Rightarrow> event" where
  "report (Invalid_expr e) = Error_invalid_expr e"
| "report (Thrown e) = Warn e"

text \<open>The number of fragments that the two buffers hold.\<close>

definition buffered :: "switch_state \<Rightarrow> nat" where
  "buffered st =
     sum_list (map (\<lambda>(gid, g). length (msgs g)) (pendingIn st)) +
     sum_list (map (\<lambda>(gid, onwards). length onwards) (pendingOut st))"

text \<open>
  The vocabulary for traces of the split side: a fragment of the group \<open>gid\<close> is a message
  that has \<^verbatim>\<open>parts\<close> with that \<^verbatim>\<open>id\<close> and an \<^verbatim>\<open>index\<close>; \<open>declared c fs\<close> is the count a group
  knows after the fragments \<open>fs\<close> when it knew \<open>c\<close> before: the last one that a fragment
  declared.
\<close>

definition is_fragment_of :: "string \<Rightarrow> message \<Rightarrow> bool" where
  "is_fragment_of gid m =
     (case parts m of None \<Rightarrow> False | Some p \<Rightarrow> parts_id p = Some gid \<and> parts_index p \<noteq> None)"

definition group_fragments :: "string \<Rightarrow> message list \<Rightarrow> message list" where
  "group_fragments gid ms = filter (is_fragment_of gid) ms"

fun declared :: "int option \<Rightarrow> message list \<Rightarrow> int option" where
  "declared c [] = c"
| "declared c (m # ms) =
     declared (case parts m of
                 None \<Rightarrow> c
               | Some p \<Rightarrow> (case parts_count p of Some k \<Rightarrow> Some k | None \<Rightarrow> c)) ms"

text \<open>
  The number of times an instance has reported that it holds too many messages, which is
  the number of times it has emptied its buffers for that reason.
\<close>

fun too_many :: "event \<Rightarrow> bool" where
  "too_many (Error_too_many m) = True"
| "too_many e = False"

definition overflows :: "switch_state \<Rightarrow> nat" where
  "overflows st = length (filter too_many (out st))"

section \<open>Properties\<close>

subsection \<open>Unfolding the functions on concrete inputs\<close>

lemmas run_defs =
  on_input_def processMessage_def routeMessage_def evaluate_def getProperty_def has_parts_def
  rule_turn_def getV1_def getV2_def addMessageToPending_def addMessageToGroup_def group_of_def
  sendGroupMessages_def sendGroup_def group_counts_def slot_is_null_def slot_msg_def
  set_parts_def set_count_def clearPending_def getMaxKeptCount_def inherited_def
  demo_host_def mk_rule_def mk_node_def fragment_def plain_def initial_state_def Let_def

subsection \<open>A pass that ends early\<close>

lemma processMessage_False: "processMessage h n st msg False = routeMessage h n st msg"
  by (simp add: processMessage_def)

lemma routeMessage_abort:
  assumes "snd (evaluate h n st msg) = Inl a"
  shows "routeMessage h n st msg =
         st\<lparr>assigned := fst (evaluate h n st msg), out := out st @ [report a]\<rparr>"
  using assms unfolding routeMessage_def
  by (cases "evaluate h n st msg"; cases a) auto

lemma report_not_Send: "report a \<noteq> Send onward"
  by (cases a) simp_all

text \<open>
  The ways an evaluation ends in an exception: the property under test does not resolve;
  the expression of the first operand fails; the operator throws.
\<close>

lemma evaluate_property_throws:
  "getProperty h n msg = Inl e \<Longrightarrow> evaluate h n st msg = (assigned st, Inl (Thrown e))"
  by (simp add: evaluate_def)

lemma rule_turn_operand1_fails:
  assumes "rule_vt r = ''jsonata''"
    and "\<And>b. evaluateJSONataExpression h (rule_v r) b msg = Inl e"
  shows "snd (rule_turn h n prev msg hp tested i r bs ef ow) = Inl (Invalid_expr e)"
  using assms unfolding rule_turn_def getV1_def
  by (auto simp: Let_def split: option.splits)

lemma rule_turn_operator_throws:
  assumes "getV1 h prev bs i msg r hp = (bs', Inr v1)" and "getV2 h prev msg r = Inr v2"
    and "rule_t r \<noteq> Op_else"
    and "operators h (rule_t r) tested v1 v2 (rule_case r) (parts msg) = Inl e"
  shows "rule_turn h n prev msg hp tested i r bs ef ow = (bs', Inl (Thrown e))"
  using assms unfolding rule_turn_def
  by (simp add: Let_def)



subsection \<open>The rule loop\<close>

text \<open>What one turn of the loop does to \<^verbatim>\<open>elseflag\<close> and \<^verbatim>\<open>onward\<close> when it does not end the pass.\<close>

lemma rule_turn_Inr:
  assumes "rule_turn h n prev msg hp prop i r bs ef ow = (bs', Inr (ef', ow', stop))"
  shows "(ow' = ow @ [Some msg] \<and> ef' = False \<and> stop = (checkall n = ''false'')) \<or>
         (ow' = ow @ [None] \<and> ef' = (if rule_t r = Op_else then True else ef) \<and> stop = False)"
  using assms unfolding rule_turn_def
  by (auto simp: Let_def split: prod.splits sum.splits if_splits)

lemma rule_turn_else:
  assumes "rule_t r = Op_else"
    and "rule_turn h n prev msg hp prop i r bs ef ow = (bs', Inr (ef', ow', stop))"
  shows "ow' = ow @ [if ef then Some msg else None] \<and> ef' = (\<not> ef)"
  using assms unfolding rule_turn_def
  by (auto simp: Let_def split: prod.splits sum.splits if_splits)

lemma rule_turn_stop:
  "rule_turn h n prev msg hp prop i r bs ef ow = (bs', Inr (ef', ow', True)) \<Longrightarrow> checkall n = ''false''"
  unfolding rule_turn_def
  by (auto simp: Let_def split: prod.splits sum.splits if_splits)

text \<open>The loop only appends to \<^verbatim>\<open>onward\<close>.\<close>

lemma rules_loop_extends:
  "rules_loop h n prev msg hp prop i rs bs ef ow = (bs', Inr (ef', ow')) \<Longrightarrow>
   \<exists>zs. ow' = ow @ zs"
proof (induction rs arbitrary: i bs ef ow)
  case Nil
  then show ?case by simp
next
  case (Cons r rs)
  obtain b1 res where t: "rule_turn h n prev msg hp prop i r bs ef ow = (b1, res)"
    by (cases "rule_turn h n prev msg hp prop i r bs ef ow")
  show ?case
  proof (cases res)
    case (Inl a)
    with Cons.prems t show ?thesis by simp
  next
    case (Inr x)
    obtain e1 o1 stop where x: "x = (e1, o1, stop)" by (cases x)
    from rule_turn_Inr[OF t[unfolded Inr x]]
    obtain y where o1: "o1 = ow @ [y]" by auto
    show ?thesis
    proof (cases stop)
      case True
      with Cons.prems t Inr x o1 show ?thesis by auto
    next
      case False
      with Cons.prems t Inr x o1
      have "rules_loop h n prev msg hp prop (Suc i) rs b1 e1 (ow @ [y]) = (bs', Inr (ef', ow'))"
        by simp
      from Cons.IH[OF this] show ?thesis by auto
    qed
  qed
qed


lemma evaluate_Inr:
  assumes "snd (evaluate h n st msg) = Inr (prop, onward)"
  shows "\<exists>bs ef. rules_loop h n (previousValue st) msg (has_parts msg) prop 0 (rules n)
                   (assigned st) True [] = (bs, Inr (ef, onward))"
  using assms unfolding evaluate_def
  by (auto split: sum.splits prod.splits)

subsection \<open>First-match mode\<close>

lemma rules_loop_first_match:
  assumes "checkall n = ''false''"
    and "rules_loop h n prev msg hp prop i rs bs ef ow = (bs', Inr (ef', ow'))"
  shows "ow' = ow @ replicate (length rs) None \<or>
         (\<exists>k < length rs. ow' = ow @ replicate k None @ [Some msg])"
  using assms(2)
proof (induction rs arbitrary: i bs ef ow)
  case Nil
  then show ?case by simp
next
  case (Cons r rs)
  obtain b1 res where t: "rule_turn h n prev msg hp prop i r bs ef ow = (b1, res)"
    by (cases "rule_turn h n prev msg hp prop i r bs ef ow")
  show ?case
  proof (cases res)
    case (Inl a)
    with Cons.prems t show ?thesis by simp
  next
    case (Inr x)
    obtain e1 o1 stop where x: "x = (e1, o1, stop)" by (cases x)
    from rule_turn_Inr[OF t[unfolded Inr x]] assms(1)
    consider (hit) "o1 = ow @ [Some msg]" "stop" | (miss) "o1 = ow @ [None]" "\<not> stop"
      by auto
    then show ?thesis
    proof cases
      case hit
      with Cons.prems t Inr x have "ow' = ow @ [Some msg]" by simp
      then have "ow' = ow @ replicate 0 None @ [Some msg]" by simp
      then show ?thesis by (metis length_Cons zero_less_Suc)
    next
      case miss
      with Cons.prems t Inr x
      have "rules_loop h n prev msg hp prop (Suc i) rs b1 e1 (ow @ [None]) = (bs', Inr (ef', ow'))"
        by simp
      from Cons.IH[OF this]
      show ?thesis
      proof
        assume "ow' = (ow @ [None]) @ replicate (length rs) None"
        then show ?thesis by (simp add: replicate_app_Cons_same)
      next
        assume "\<exists>k<length rs. ow' = (ow @ [None]) @ replicate k None @ [Some msg]"
        then obtain k where "k < length rs" "ow' = ow @ replicate (Suc k) None @ [Some msg]"
          by auto
        then show ?thesis by (metis length_Cons Suc_less_eq)
      qed
    qed
  qed
qed

text \<open>
  C7, as the claim states it, fails: with two rules of which the first matches, the array
  that first-match mode emits has one slot, not two.
\<close>

theorem first_match_array_counterexample:
  "length (rules (mk_node [mk_rule Op_true JUndefined ''str'', mk_rule Op_false JUndefined ''str'']
             ''false'' False False)) = 2
   \<and> out (on_input demo_host
            (mk_node [mk_rule Op_true JUndefined ''str'', mk_rule Op_false JUndefined ''str'']
               ''false'' False False)
            initial_state (plain (JBool True)))
       = [Send [Some (plain (JBool True))]]"
  by (simp add: run_defs)

text \<open>
  C7, amended. In first-match mode the decision array of a pass that completes has at most
  one slot that is not \<^verbatim>\<open>null\<close>: either no rule matched and it is \<^verbatim>\<open>null\<close> on all \<open>N\<close> ports,
  or it ends with the message at the first matching rule and has no slot for the ports
  after it. Outside sequence repair that array is what \<^verbatim>\<open>node.send\<close> gets.
\<close>

theorem first_match_onward:
  assumes "checkall n = ''false''"
    and "snd (evaluate h n st msg) = Inr (prop, onward)"
  shows "(onward = replicate (length (rules n)) None
            \<or> (\<exists>k<length (rules n). onward = replicate k None @ [Some msg]))
         \<and> length (filter (\<lambda>x. x \<noteq> None) onward) \<le> 1
         \<and> (\<not> (repair n \<and> has_parts msg) \<longrightarrow>
              out (routeMessage h n st msg) = out st @ [Send onward])"
proof -
  from evaluate_Inr[OF assms(2)] obtain bs ef where
    "rules_loop h n (previousValue st) msg (has_parts msg) prop 0 (rules n) (assigned st) True []
       = (bs, Inr (ef, onward))"
    by blast
  from rules_loop_first_match[OF assms(1) this]
  have shape: "onward = replicate (length (rules n)) None
                 \<or> (\<exists>k<length (rules n). onward = replicate k None @ [Some msg])"
    by simp
  then have one: "length (filter (\<lambda>x. x \<noteq> None) onward) \<le> 1"
    by auto
  have sent: "out (routeMessage h n st msg) = out st @ [Send onward]"
    if "\<not> (repair n \<and> has_parts msg)"
    using that assms(2) unfolding routeMessage_def
    by (cases "evaluate h n st msg") auto
  from shape one sent show ?thesis by blast
qed

theorem first_match_onward_witness:
  "checkall (mk_node [mk_rule Op_false JUndefined ''str'', mk_rule Op_true JUndefined ''str'',
               mk_rule Op_nnull JUndefined ''str''] ''false'' False False) = ''false''
   \<and> snd (evaluate demo_host
            (mk_node [mk_rule Op_false JUndefined ''str'', mk_rule Op_true JUndefined ''str'',
               mk_rule Op_nnull JUndefined ''str''] ''false'' False False)
            initial_state (plain (JBool True)))
       = Inr (JBool True, [None, Some (plain (JBool True))])
   \<and> length (filter (\<lambda>x. x \<noteq> None) [None, Some (plain (JBool True))]) \<le> 1
   \<and> out (routeMessage demo_host
            (mk_node [mk_rule Op_false JUndefined ''str'', mk_rule Op_true JUndefined ''str'',
               mk_rule Op_nnull JUndefined ''str''] ''false'' False False)
            initial_state (plain (JBool True)))
       = [Send [None, Some (plain (JBool True))]]"
proof -
  let ?n = "mk_node [mk_rule Op_false JUndefined ''str'', mk_rule Op_true JUndefined ''str'',
               mk_rule Op_nnull JUndefined ''str''] ''false'' False False"
  let ?m = "plain (JBool True)"
  have a: "checkall ?n = ''false''"
    by (simp add: mk_node_def)
  have b: "snd (evaluate demo_host ?n initial_state ?m) = Inr (JBool True, [None, Some ?m])"
    by (simp add: run_defs)
  have c: "\<not> (repair ?n \<and> has_parts ?m)"
    by (simp add: mk_node_def)
  have d: "out initial_state = []"
    by (simp add: initial_state_def)
  from first_match_onward[OF a b] a b c d show ?thesis
    by simp
qed

subsection \<open>The rule \<^verbatim>\<open>else\<close>\<close>

lemma first_else_aux:
  assumes "\<forall>q \<in> set pre. rule_t q \<noteq> Op_else" and "rule_t r = Op_else"
    and "rules_loop h n prev msg hp prop i (pre @ r # post) bs ef ow = (bs', Inr (ef', ow'))"
    and "ef = (\<forall>x \<in> set ow. x = None)"
  shows "(length ow + length pre < length ow' \<and> ow' ! (length ow + length pre) = Some msg) =
         (\<forall>x \<in> set (take (length ow + length pre) ow'). x = None)"
  using assms(1,3,4)
proof (induction pre arbitrary: i bs ef ow)
  case Nil
  obtain b1 res where t: "rule_turn h n prev msg hp prop i r bs ef ow = (b1, res)"
    by (cases "rule_turn h n prev msg hp prop i r bs ef ow")
  show ?case
  proof (cases res)
    case (Inl a)
    with Nil.prems t show ?thesis by simp
  next
    case (Inr x)
    obtain e1 o1 stop where x: "x = (e1, o1, stop)" by (cases x)
    from rule_turn_else[OF assms(2) t[unfolded Inr x]]
    have o1: "o1 = ow @ [if ef then Some msg else None]" by simp
    have "\<exists>zs. ow' = o1 @ zs"
    proof (cases stop)
      case True
      with Nil.prems t Inr x show ?thesis by simp
    next
      case False
      with Nil.prems t Inr x
      have "rules_loop h n prev msg hp prop (Suc i) post b1 e1 o1 = (bs', Inr (ef', ow'))"
        by simp
      then show ?thesis by (rule rules_loop_extends)
    qed
    then obtain zs where "ow' = ow @ [if ef then Some msg else None] @ zs"
      using o1 by auto
    with Nil.prems(3) show ?thesis by (auto simp: nth_append)
  qed
next
  case (Cons p ps)
  obtain b1 res where t: "rule_turn h n prev msg hp prop i p bs ef ow = (b1, res)"
    by (cases "rule_turn h n prev msg hp prop i p bs ef ow")
  from Cons.prems(1) have np: "rule_t p \<noteq> Op_else" and nps: "\<forall>q \<in> set ps. rule_t q \<noteq> Op_else"
    by simp_all
  show ?case
  proof (cases res)
    case (Inl a)
    with Cons.prems t show ?thesis by simp
  next
    case (Inr x)
    obtain e1 o1 stop where x: "x = (e1, o1, stop)" by (cases x)
    from rule_turn_Inr[OF t[unfolded Inr x]] np
    consider (hit) "o1 = ow @ [Some msg]" "e1 = False"
      | (miss) "o1 = ow @ [None]" "e1 = ef" "\<not> stop"
      by auto
    then show ?thesis
    proof cases
      case hit
      show ?thesis
      proof (cases stop)
        case True
        with Cons.prems t Inr x hit have "ow' = ow @ [Some msg]" by simp
        then show ?thesis by auto
      next
        case False
        with Cons.prems t Inr x hit
        have l: "rules_loop h n prev msg hp prop (Suc i) (ps @ r # post) b1 False (ow @ [Some msg]) =
              (bs', Inr (ef', ow'))"
          by simp
        from Cons.IH[OF nps l] show ?thesis by simp
      qed
    next
      case miss
      with Cons.prems t Inr x
      have l: "rules_loop h n prev msg hp prop (Suc i) (ps @ r # post) b1 ef (ow @ [None]) =
            (bs', Inr (ef', ow'))"
        by simp
      from Cons.prems(3) have "ef = (\<forall>x \<in> set (ow @ [None]). x = None)" by simp
      from Cons.IH[OF nps l this] show ?thesis by simp
    qed
  qed
qed

text \<open>
  C2, as the claim states it, fails twice. After an \<^verbatim>\<open>else\<close> rule that matched, \<^verbatim>\<open>elseflag\<close> is
  false, not true: the match clears the flag that the rule has just reset. And with the
  rules \<^verbatim>\<open>true\<close>, \<^verbatim>\<open>else\<close>, \<^verbatim>\<open>else\<close> and the payload \<^verbatim>\<open>true\<close>, the second \<^verbatim>\<open>else\<close> matches
  although the first rule of the pass matched.
\<close>

theorem else_tracker_counterexample:
  "rule_turn demo_host (mk_node [mk_rule Op_else JUndefined ''str''] ''true'' False False) JNull
     (plain (JNum 1)) False (JNum 1) 0 (mk_rule Op_else JUndefined ''str'') [] True []
     = ([], Inr (False, [Some (plain (JNum 1))], False))
   \<and> snd (evaluate demo_host
            (mk_node [mk_rule Op_true JUndefined ''str'', mk_rule Op_else JUndefined ''str'',
               mk_rule Op_else JUndefined ''str''] ''true'' False False)
            initial_state (plain (JBool True)))
       = Inr (JBool True, [Some (plain (JBool True)), None, Some (plain (JBool True))])"
  by (simp add: run_defs)

text \<open>
  C2, amended. An \<^verbatim>\<open>else\<close> rule whose operands resolve matches if and only if \<^verbatim>\<open>elseflag\<close> is
  true when the loop reaches it, and after its turn \<^verbatim>\<open>elseflag\<close> is true if and only if the
  rule did not match. For the first \<^verbatim>\<open>else\<close> rule of the list this means: in a pass that
  completes, its slot holds the message if and only if no earlier rule of the pass matched.
\<close>

theorem else_rule_matches:
  assumes "rule_t r = Op_else"
  shows "(rule_turn h n prev msg hp tested i r bs ef ow = (bs', Inr (ef', ow', stop)) \<longrightarrow>
            ow' = ow @ [if ef then Some msg else None] \<and> ef' = (\<not> ef))
         \<and> (rules n = pre @ r # post \<and> (\<forall>q \<in> set pre. rule_t q \<noteq> Op_else)
              \<and> snd (evaluate h n st msg) = Inr (tested, onward) \<longrightarrow>
              (length pre < length onward \<and> onward ! length pre = Some msg)
                = (\<forall>x \<in> set (take (length pre) onward). x = None))"
proof -
  have turn: "ow' = ow @ [if ef then Some msg else None] \<and> ef' = (\<not> ef)"
    if "rule_turn h n prev msg hp tested i r bs ef ow = (bs', Inr (ef', ow', stop))"
    using rule_turn_else[OF assms that] .
  have first: "(length pre < length onward \<and> onward ! length pre = Some msg)
                = (\<forall>x \<in> set (take (length pre) onward). x = None)"
    if rs: "rules n = pre @ r # post" and pre: "\<forall>q \<in> set pre. rule_t q \<noteq> Op_else"
      and ev: "snd (evaluate h n st msg) = Inr (tested, onward)"
  proof -
    from evaluate_Inr[OF ev] rs obtain b e where
      "rules_loop h n (previousValue st) msg (has_parts msg) tested 0 (pre @ r # post) (assigned st)
         True [] = (b, Inr (e, onward))"
      by auto
    from first_else_aux[OF pre assms this] show ?thesis by simp
  qed
  from turn first show ?thesis by blast
qed

theorem else_rule_matches_witness:
  "rule_t (mk_rule Op_else JUndefined ''str'') = Op_else
   \<and> snd (evaluate demo_host
            (mk_node [mk_rule Op_true JUndefined ''str'', mk_rule Op_else JUndefined ''str'']
               ''true'' False False)
            initial_state (plain (JBool False)))
       = Inr (JBool False, [None, Some (plain (JBool False))])
   \<and> (length [mk_rule Op_true JUndefined ''str''] < length [None, Some (plain (JBool False))]
        \<and> [None, Some (plain (JBool False))] ! length [mk_rule Op_true JUndefined ''str'']
            = Some (plain (JBool False)))
       = (\<forall>x \<in> set (take (length [mk_rule Op_true JUndefined ''str''])
                        [None, Some (plain (JBool False))]). x = None)"
proof -
  let ?t = "mk_rule Op_true JUndefined ''str''"
  let ?e = "mk_rule Op_else JUndefined ''str''"
  let ?n = "mk_node [?t, ?e] ''true'' False False"
  let ?m = "plain (JBool False)"
  have a: "rule_t ?e = Op_else"
    by (simp add: mk_rule_def)
  have b: "rules ?n = [?t] @ ?e # []"
    by (simp add: mk_node_def)
  have c: "\<forall>q \<in> set [?t]. rule_t q \<noteq> Op_else"
    by (simp add: mk_rule_def)
  have d: "snd (evaluate demo_host ?n initial_state ?m) = Inr (JBool False, [None, Some ?m])"
    by (simp add: run_defs)
  from else_rule_matches[where n = ?n and pre = "[?t]" and post = "[]" and h = demo_host
      and st = initial_state and msg = ?m and tested = "JBool False" and onward = "[None, Some ?m]",
      OF a]
    b c d
  have "(length [?t] < length [None, Some ?m] \<and> [None, Some ?m] ! length [?t] = Some ?m)
          = (\<forall>x \<in> set (take (length [?t]) [None, Some ?m]). x = None)"
    by blast
  with a d show ?thesis by blast
qed

subsection \<open>An expression as second operand\<close>

lemma v2_fail_turn:
  assumes "rule_v2t r = ''jsonata''" and "evaluateJSONataExpression h (rule_v2 r) None msg = Inl e"
  shows "\<exists>bs' e'. rule_turn h n prev msg hp prop i r bs ef ow = (bs', Inl (Invalid_expr e'))"
  using assms unfolding rule_turn_def getV2_def getV1_def
  by (auto simp: Let_def split: prod.splits sum.splits if_splits)

lemma loop_reaches:
  assumes "\<And>i bs ef ow. \<exists>bs' a. rule_turn h n prev msg hp prop i r bs ef ow = (bs', Inl a)"
    and "checkall n \<noteq> ''false''" and "r \<in> set rs"
  shows "\<exists>bs' a. rules_loop h n prev msg hp prop i rs bs ef ow = (bs', Inl a)"
  using assms(3)
proof (induction rs arbitrary: i bs ef ow)
  case Nil
  then show ?case by simp
next
  case (Cons q qs)
  obtain b1 res where t: "rule_turn h n prev msg hp prop i q bs ef ow = (b1, res)"
    by (cases "rule_turn h n prev msg hp prop i q bs ef ow")
  show ?case
  proof (cases res)
    case (Inl a)
    with t show ?thesis by simp
  next
    case (Inr x)
    obtain e1 o1 stop where x: "x = (e1, o1, stop)" by (cases x)
    have ns: "\<not> stop"
    proof
      assume stop
      with t Inr x have "rule_turn h n prev msg hp prop i q bs ef ow = (b1, Inr (e1, o1, True))"
        by simp
      from rule_turn_stop[OF this] assms(2) show False by simp
    qed
    from t Inr assms(1)[of i bs ef ow] have "q \<noteq> r" by auto
    with Cons.prems have "r \<in> set qs" by simp
    from Cons.IH[OF this] t Inr x ns show ?thesis by simp
  qed
qed

text \<open>
  C3, as the claim states it, fails: a second operand whose expression does not evaluate ends
  the pass. The error is reported, nothing is sent and \<^verbatim>\<open>previousValue\<close> stays \<^verbatim>\<open>null\<close>.
\<close>

theorem operand2_expression_counterexample:
  "getV2 demo_host JNull (plain (JNum 1))
     ((mk_rule Op_btwn (JNum 0) ''num'')\<lparr>rule_v2 := JExpr ''$limit()'', rule_v2t := ''jsonata''\<rparr>)
     = Inl (Invalid_expr ''evaluation failed'')
   \<and> on_input demo_host
        (mk_node [(mk_rule Op_btwn (JNum 0) ''num'')\<lparr>rule_v2 := JExpr ''$limit()'', rule_v2t := ''jsonata''\<rparr>]
           ''true'' False False)
        initial_state (plain (JNum 1))
       = initial_state\<lparr>out := [Error_invalid_expr ''evaluation failed'']\<rparr>"
  by (simp add: run_defs)

text \<open>
  C3, amended. When the expression of a rule's second operand fails on the message, the
  operand does not resolve: the turn of that rule ends the pass with the error
  \<^verbatim>\<open>invalid-expr\<close>. In exhaustive mode every pass over a rule list that holds such a rule ends
  early: one report, no \<^verbatim>\<open>node.send\<close>, \<^verbatim>\<open>previousValue\<close> unchanged. A failure is absorbed
  into \<^verbatim>\<open>undefined\<close> only for a second operand that is no expression: there a property
  lookup that throws resolves to \<^verbatim>\<open>undefined\<close> and the turn goes on.
\<close>

theorem operand2_expression_failure:
  assumes "rule_v2t r = ''jsonata''"
    and "evaluateJSONataExpression h (rule_v2 r) None msg = Inl e"
  shows "getV2 h prev msg r = Inl (Invalid_expr e)
         \<and> (\<exists>bs' e'. rule_turn h n prev msg hp tested i r bs ef ow = (bs', Inl (Invalid_expr e')))
         \<and> (r \<in> set (rules n) \<and> checkall n \<noteq> ''false'' \<longrightarrow>
              (\<exists>a. snd (evaluate h n st msg) = Inl a
                 \<and> routeMessage h n st msg =
                     st\<lparr>assigned := fst (evaluate h n st msg), out := out st @ [report a]\<rparr>
                 \<and> (\<forall>onward. report a \<noteq> Send onward)
                 \<and> previousValue (routeMessage h n st msg) = previousValue st))
         \<and> (rule_v2t q \<noteq> ''prev'' \<and> rule_v2t q \<noteq> ''jsonata'' \<and> rule_v2 q \<noteq> JUndefined
              \<and> evaluateNodeProperty h (rule_v2 q) (rule_v2t q) msg = Inl e2 \<longrightarrow>
              getV2 h prev msg q = Inr JUndefined)"
proof -
  from assms have v2: "getV2 h prev msg r = Inl (Invalid_expr e)"
    by (simp add: getV2_def)
  have turn: "\<exists>bs' e'. rule_turn h n prev msg hp tested i r bs ef ow = (bs', Inl (Invalid_expr e'))"
    for prev hp tested i bs ef ow
    using v2_fail_turn[OF assms] .
  have pass: "\<exists>a. snd (evaluate h n st msg) = Inl a
                 \<and> routeMessage h n st msg =
                     st\<lparr>assigned := fst (evaluate h n st msg), out := out st @ [report a]\<rparr>
                 \<and> (\<forall>onward. report a \<noteq> Send onward)
                 \<and> previousValue (routeMessage h n st msg) = previousValue st"
    if mem: "r \<in> set (rules n)" and ex: "checkall n \<noteq> ''false''"
  proof -
    have "\<exists>a. snd (evaluate h n st msg) = Inl a"
    proof (cases "getProperty h n msg")
      case (Inl x)
      then show ?thesis by (simp add: evaluate_def)
    next
      case (Inr pv)
      have "\<exists>bs' a. rule_turn h n (previousValue st) msg (has_parts msg) pv i r bs ef ow = (bs', Inl a)"
        for i bs ef ow
        using turn[of "previousValue st" "has_parts msg" pv i bs ef ow] by blast
      from loop_reaches[OF this ex mem]
      obtain b a where
        "rules_loop h n (previousValue st) msg (has_parts msg) pv 0 (rules n) (assigned st) True []
           = (b, Inl a)"
        by blast
      with Inr show ?thesis by (simp add: evaluate_def)
    qed
    then obtain a where a: "snd (evaluate h n st msg) = Inl a" ..
    from routeMessage_abort[OF a] a show ?thesis
      by (simp add: report_not_Send)
  qed
  have lookup: "getV2 h prev msg q = Inr JUndefined"
    if "rule_v2t q \<noteq> ''prev'' \<and> rule_v2t q \<noteq> ''jsonata'' \<and> rule_v2 q \<noteq> JUndefined
          \<and> evaluateNodeProperty h (rule_v2 q) (rule_v2t q) msg = Inl e2"
    using that by (simp add: getV2_def)
  from v2 turn pass lookup show ?thesis by blast
qed

theorem operand2_expression_failure_witness:
  "rule_v2t ((mk_rule Op_btwn (JNum 0) ''num'')\<lparr>rule_v2 := JExpr ''$limit()'', rule_v2t := ''jsonata''\<rparr>)
     = ''jsonata''
   \<and> evaluateJSONataExpression demo_host
        (rule_v2 ((mk_rule Op_btwn (JNum 0) ''num'')\<lparr>rule_v2 := JExpr ''$limit()'', rule_v2t := ''jsonata''\<rparr>))
        None (plain (JNum 1)) = Inl ''evaluation failed''
   \<and> getV2 demo_host JNull (plain (JNum 1))
        ((mk_rule Op_btwn (JNum 0) ''num'')\<lparr>rule_v2 := JExpr ''$limit()'', rule_v2t := ''jsonata''\<rparr>)
       = Inl (Invalid_expr ''evaluation failed'')
   \<and> previousValue (routeMessage demo_host
        (mk_node [(mk_rule Op_btwn (JNum 0) ''num'')\<lparr>rule_v2 := JExpr ''$limit()'', rule_v2t := ''jsonata''\<rparr>]
           ''true'' False False)
        initial_state (plain (JNum 1))) = JNull"
proof -
  let ?r = "(mk_rule Op_btwn (JNum 0) ''num'')\<lparr>rule_v2 := JExpr ''$limit()'', rule_v2t := ''jsonata''\<rparr>"
  let ?n = "mk_node [?r] ''true'' False False"
  let ?m = "plain (JNum 1)"
  have a: "rule_v2t ?r = ''jsonata''"
    by (simp add: mk_rule_def)
  have b: "evaluateJSONataExpression demo_host (rule_v2 ?r) None ?m = Inl ''evaluation failed''"
    by (simp add: mk_rule_def demo_host_def)
  have c: "?r \<in> set (rules ?n) \<and> checkall ?n \<noteq> ''false''"
    by (simp add: mk_node_def)
  have d: "previousValue initial_state = JNull"
    by (simp add: initial_state_def)
  from operand2_expression_failure[where n = ?n and st = initial_state and prev = JNull
      and hp = False and tested = "JNum 1" and i = 0 and bs = "[]" and ef = True and ow = "[]"
      and q = ?r and ?e2.0 = "[]", OF a b] c d
  have "getV2 demo_host JNull ?m ?r = Inl (Invalid_expr ''evaluation failed'')
        \<and> previousValue (routeMessage demo_host ?n initial_state ?m) = JNull"
    by auto
  with a b show ?thesis by blast
qed

subsection \<open>The slot \<^verbatim>\<open>previousValue\<close>\<close>












subsection \<open>The split side\<close>

lemma release_loop_foldl:
  "release_loop h n c ms st =
     foldl (\<lambda>s m. processMessage h n s m False) st (map (set_count c) ms)"
  by (induction ms arbitrary: st) (simp_all add: processMessage_False)

lemma inputs_snoc: "inputs h n st (ms @ [m]) = on_input h n (inputs h n st ms) m"
  by (induction ms arbitrary: st) simp_all

lemma declared_snoc:
  "declared c (fs @ [f]) =
     (case parts f of
        None \<Rightarrow> declared c fs
      | Some p \<Rightarrow> (case parts_count p of Some k \<Rightarrow> Some k | None \<Rightarrow> declared c fs))"
  by (induction fs arbitrary: c) (simp_all split: option.splits)

text \<open>
  What \<^verbatim>\<open>addMessageToGroup\<close> does for an identity that is not inherited: the group object it
  returns holds the fragments in the order of arrival and the count declared last, also
  after an overflow; without an overflow that object is the group stored in \<^verbatim>\<open>pendingIn\<close>.
\<close>

lemma addMessageToGroup_group:
  assumes "addMessageToGroup h st gid msg p = Inr (st1, grp)"
  shows "grp = (group_of st gid)
                 \<lparr>msgs := msgs (group_of st gid) @ [msg],
                  count := (case parts_count p of Some c \<Rightarrow> Some c | None \<Rightarrow> count (group_of st gid))\<rparr>"
  using assms
  by (auto simp: addMessageToGroup_def Let_def split: option.splits if_splits)

lemma addMessageToGroup_out:
  assumes "addMessageToGroup h st gid msg p = Inr (st1, grp)"
  shows "out st1 = out st \<or> out st1 = out st @ [Error_too_many msg]"
  using assms
  by (auto simp: addMessageToGroup_def Let_def clearPending_def split: option.splits if_splits)

lemma addMessageToGroup_returns:
  "\<not> inherited gid \<Longrightarrow> \<exists>st1 grp. addMessageToGroup h st gid msg p = Inr (st1, grp)"
  by (simp add: addMessageToGroup_def Let_def split: option.splits)

lemma addMessageToGroup_inherited:
  "inherited gid \<Longrightarrow> addMessageToGroup h st gid msg p = Inl type_error"
  by (simp add: addMessageToGroup_def Let_def)

lemma addMessageToGroup_stored:
  assumes "\<not> inherited gid" and "\<not> (0 < getMaxKeptCount h \<and> getMaxKeptCount h < pendingCount st + 1)"
    and "grp = (group_of st gid)
                 \<lparr>msgs := msgs (group_of st gid) @ [msg],
                  count := (case parts_count p of Some c \<Rightarrow> Some c | None \<Rightarrow> count (group_of st gid))\<rparr>"
  shows "addMessageToGroup h st gid msg p =
           Inr (st\<lparr>pendingIn := AList.update gid grp (pendingIn st),
                    pendingId := (if map_of (pendingIn st) gid = None
                                  then pendingId st + 1 else pendingId st),
                    pendingCount := pendingCount st + 1\<rparr>, grp)"
  using assms
  by (auto simp: addMessageToGroup_def Let_def group_of_def split: option.splits)

text \<open>
  One call of \<^verbatim>\<open>addMessageToPending\<close> for a fragment, in any state and with any bound: when
  the group object that \<^verbatim>\<open>addMessageToGroup\<close> returns is complete, its fragments are released
  one after the other and the group is deleted; otherwise the fragment is buffered only.
\<close>

lemma addMessageToPending_step:
  assumes "parts msg = Some p" and "parts_id p = Some gid" and "parts_index p = Some k"
    and "addMessageToGroup h st gid msg p = Inr (st1, grp)"
  shows "addMessageToPending h n st msg =
           (if count grp = Some (int (length (msgs grp)))
            then Inr ((foldl (\<lambda>s m. processMessage h n s m False) st1 (map (set_count (count grp)) (msgs grp)))
                        \<lparr>pendingCount :=
                           pendingCount (foldl (\<lambda>s m. processMessage h n s m False) st1
                                           (map (set_count (count grp)) (msgs grp)))
                           - int (length (msgs grp)),
                         pendingIn :=
                           AList.delete gid
                             (pendingIn (foldl (\<lambda>s m. processMessage h n s m False) st1
                                           (map (set_count (count grp)) (msgs grp))))\<rparr>, True)
            else Inr (st1, True))"
  using assms
  by (simp add: addMessageToPending_def Let_def release_loop_foldl)

lemma on_input_added:
  "needsCount n \<Longrightarrow> has_parts msg \<Longrightarrow> addMessageToPending h n st msg = Inr (st', True) \<Longrightarrow>
   on_input h n st msg = st'"
  by (simp add: on_input_def processMessage_def)

text \<open>
  The reports of an overflow are never withdrawn, and a step that reports none leaves
  \<^verbatim>\<open>pendingIn\<close> to the split side: the join side and the rule loop do not touch it.
\<close>

lemma sendGroup_loop_quiet: "filter too_many (sendGroup_loop ids counts k ix ows) = []"
  by (induction ows arbitrary: ix) simp_all

lemma overflows_sendGroupMessages:
  "overflows st \<le> overflows (sendGroupMessages h st onward msg)
   \<and> (overflows (sendGroupMessages h st onward msg) = overflows st \<longrightarrow>
        pendingIn (sendGroupMessages h st onward msg) = pendingIn st)"
  by (simp add: sendGroupMessages_def sendGroup_def Let_def overflows_def sendGroup_loop_quiet
        clearPending_def split: option.splits)

lemma overflows_routeMessage:
  "overflows st \<le> overflows (routeMessage h n st msg)
   \<and> (overflows (routeMessage h n st msg) = overflows st \<longrightarrow>
        pendingIn (routeMessage h n st msg) = pendingIn st)"
proof -
  obtain bs res where e: "evaluate h n st msg = (bs, res)"
    by (cases "evaluate h n st msg")
  show ?thesis
  proof (cases res)
    case (Inl a)
    with e show ?thesis
      by (cases a) (simp_all add: routeMessage_def overflows_def)
  next
    case (Inr x)
    obtain tested onward where x: "x = (tested, onward)" by (cases x)
    let ?st = "st\<lparr>assigned := bs, previousValue := tested\<rparr>"
    have same: "overflows ?st = overflows st" "pendingIn ?st = pendingIn st"
      by (simp_all add: overflows_def)
    from overflows_sendGroupMessages[of ?st h onward msg] same e Inr x show ?thesis
      by (simp add: routeMessage_def overflows_def)
  qed
qed

lemma overflows_release_loop:
  "overflows st \<le> overflows (release_loop h n c ms st)
   \<and> (overflows (release_loop h n c ms st) = overflows st \<longrightarrow>
        pendingIn (release_loop h n c ms st) = pendingIn st)"
proof (induction ms arbitrary: st)
  case Nil
  show ?case by simp
next
  case (Cons m ms)
  from overflows_routeMessage[of st h n "set_count c m"]
    Cons[of "routeMessage h n st (set_count c m)"]
  show ?case by auto
qed

lemma overflows_addMessageToGroup:
  assumes "addMessageToGroup h st gid msg p = Inr (st1, grp)"
  shows "(if 0 < getMaxKeptCount h \<and> getMaxKeptCount h < pendingCount st + 1
          then overflows st1 = Suc (overflows st) else overflows st1 = overflows st)"
  using assms
  by (auto simp: addMessageToGroup_def Let_def clearPending_def overflows_def
           split: option.splits if_splits)

lemma overflows_fragment:
  assumes "needsCount n"
    and "parts m = Some p" and "parts_id p = Some g" and "parts_index p = Some k"
    and "addMessageToGroup h st g m p = Inr (st1, grp)"
  shows "overflows (on_input h n st m) =
           (if count grp = Some (int (length (msgs grp)))
            then overflows (release_loop h n (count grp) (msgs grp) st1) else overflows st1)"
proof -
  from assms(2-4) have "has_parts m" by (simp add: has_parts_def)
  with assms show ?thesis
    by (simp add: on_input_def processMessage_def addMessageToPending_def Let_def overflows_def)
qed

lemma overflows_on_input: "overflows st \<le> overflows (on_input h n st m)"
proof (cases "needsCount n \<and> has_parts m")
  case False
  then have "on_input h n st m = routeMessage h n st m"
    by (auto simp: on_input_def processMessage_def)
  with overflows_routeMessage[of st h n m] show ?thesis by simp
next
  case True
  then obtain p g k where p: "parts m = Some p" "parts_id p = Some g" "parts_index p = Some k"
    by (auto simp: has_parts_def split: option.splits)
  show ?thesis
  proof (cases "addMessageToGroup h st g m p")
    case (Inl e)
    with True p show ?thesis
      by (simp add: on_input_def processMessage_def addMessageToPending_def overflows_def)
  next
    case (Inr x)
    obtain st1 grp where x: "x = (st1, grp)" by (cases x)
    from overflows_addMessageToGroup[OF Inr[unfolded x]] have "overflows st \<le> overflows st1"
      by (simp split: if_splits)
    moreover from overflows_release_loop[of st1 h n "count grp" "msgs grp"]
    have "overflows st1 \<le> overflows (release_loop h n (count grp) (msgs grp) st1)"
      by simp
    moreover from True have "needsCount n" by simp
    note overflows_fragment[OF this p Inr[unfolded x]]
    ultimately show ?thesis
      by (simp split: if_splits)
  qed
qed

lemma overflows_inputs: "overflows st \<le> overflows (inputs h n st ms)"
proof (induction ms arbitrary: st)
  case Nil
  show ?case by simp
next
  case (Cons m ms)
  from overflows_on_input[of st h n m] Cons[of "on_input h n st m"]
  show ?case by simp
qed

text \<open>Without a bound no overflow is reported.\<close>

lemma overflows_unbounded:
  assumes "getMaxKeptCount h \<le> 0"
  shows "overflows (inputs h n st ms) = overflows st"
proof -
  have sg: "overflows (sendGroupMessages h s onward msg) = overflows s" for s onward msg
    using assms
    by (simp add: sendGroupMessages_def sendGroup_def Let_def overflows_def sendGroup_loop_quiet
          split: option.splits)
  have rm: "overflows (routeMessage h n s msg) = overflows s" for s msg
  proof -
    obtain bs res where e: "evaluate h n s msg = (bs, res)"
      by (cases "evaluate h n s msg")
    show ?thesis
    proof (cases res)
      case (Inl a)
      with e show ?thesis
        by (cases a) (simp_all add: routeMessage_def overflows_def)
    next
      case (Inr x)
      obtain tested onward where x: "x = (tested, onward)" by (cases x)
      from sg[of "s\<lparr>assigned := bs, previousValue := tested\<rparr>" onward msg] e Inr x show ?thesis
        by (simp add: routeMessage_def overflows_def)
    qed
  qed
  have rl: "overflows (release_loop h n c fs s) = overflows s" for c fs s
    by (induction fs arbitrary: s) (simp_all add: rm)
  have oi: "overflows (on_input h n s m) = overflows s" for s m
  proof (cases "needsCount n \<and> has_parts m")
    case False
    then have "on_input h n s m = routeMessage h n s m"
      by (auto simp: on_input_def processMessage_def)
    with rm show ?thesis by simp
  next
    case True
    then obtain p g k where p: "parts m = Some p" "parts_id p = Some g" "parts_index p = Some k"
      by (auto simp: has_parts_def split: option.splits)
    show ?thesis
    proof (cases "addMessageToGroup h s g m p")
      case (Inl e)
      with True p show ?thesis
        by (simp add: on_input_def processMessage_def addMessageToPending_def overflows_def)
    next
      case (Inr x)
      obtain s1 grp where x: "x = (s1, grp)" by (cases x)
      from overflows_addMessageToGroup[OF Inr[unfolded x]] assms have "overflows s1 = overflows s"
        by simp
      moreover from True have "needsCount n" by simp
      note overflows_fragment[OF this p Inr[unfolded x]]
      ultimately show ?thesis
        by (simp add: rl)
    qed
  qed
  show ?thesis
    by (induction ms arbitrary: st) (simp_all add: oi)
qed

text \<open>A message that is no fragment of the group \<open>gid\<close> leaves that group as it is.\<close>

lemma on_input_other:
  assumes "overflows (on_input h n st m) = overflows st" and "\<not> is_fragment_of gid m"
  shows "map_of (pendingIn (on_input h n st m)) gid = map_of (pendingIn st) gid"
proof (cases "needsCount n \<and> has_parts m")
  case False
  then have "on_input h n st m = routeMessage h n st m"
    by (auto simp: on_input_def processMessage_def)
  with assms(1) overflows_routeMessage[of st h n m] show ?thesis by simp
next
  case True
  then obtain p g k where p: "parts m = Some p" "parts_id p = Some g" "parts_index p = Some k"
    by (auto simp: has_parts_def split: option.splits)
  with assms(2) have ne: "g \<noteq> gid"
    by (auto simp: is_fragment_of_def)
  show ?thesis
  proof (cases "addMessageToGroup h st g m p")
    case (Inl e)
    with True p show ?thesis
      by (simp add: on_input_def processMessage_def addMessageToPending_def)
  next
    case (Inr x)
    obtain st1 grp where x: "x = (st1, grp)" by (cases x)
    note o1 = overflows_addMessageToGroup[OF Inr[unfolded x]]
    note o2 = overflows_release_loop[of st1 h n "count grp" "msgs grp"]
    from True have "needsCount n" by simp
    note fin = overflows_fragment[OF this p Inr[unfolded x]]
    from o1 o2 fin assms(1)
    have room: "\<not> (0 < getMaxKeptCount h \<and> getMaxKeptCount h < pendingCount st + 1)"
      by (auto split: if_splits)
    with o1 have same: "overflows st1 = overflows st" by simp
    from Inr x room ne have s1: "map_of (pendingIn st1) gid = map_of (pendingIn st) gid"
      by (auto simp: addMessageToGroup_def Let_def update_conv' split: option.splits if_splits)
    show ?thesis
    proof (cases "count grp = Some (int (length (msgs grp)))")
      case False
      with True p Inr x s1 show ?thesis
        by (simp add: on_input_def processMessage_def addMessageToPending_def)
    next
      case complete: True
      with fin same assms(1) o2
      have "pendingIn (release_loop h n (count grp) (msgs grp) st1) = pendingIn st1"
        by simp
      with True p Inr x ne s1 complete show ?thesis
        by (simp add: on_input_def processMessage_def addMessageToPending_def Let_def delete_conv')
    qed
  qed
qed

text \<open>
  A fragment of the group \<open>gid\<close> that does not complete it and causes no overflow: the
  handler stores the group with the fragment appended and the count declared last, and
  sends nothing.
\<close>

lemma on_input_buffers:
  assumes "needsCount n" and "overflows (on_input h n st m) = overflows st" and "\<not> inherited gid"
    and "is_fragment_of gid m"
    and "declared (count (group_of st gid)) [m] \<noteq> Some (int (length (msgs (group_of st gid) @ [m])))"
  shows "on_input h n st m =
           st\<lparr>pendingIn := AList.update gid
                               ((group_of st gid)\<lparr>msgs := msgs (group_of st gid) @ [m],
                                                 count := declared (count (group_of st gid)) [m]\<rparr>)
                               (pendingIn st),
               pendingId := (if map_of (pendingIn st) gid = None
                             then pendingId st + 1 else pendingId st),
               pendingCount := pendingCount st + 1\<rparr>"
proof -
  from assms(4) obtain p k where p: "parts m = Some p" "parts_id p = Some gid" "parts_index p = Some k"
    by (auto simp: is_fragment_of_def split: option.splits)
  then have hp: "has_parts m" by (simp add: has_parts_def)
  let ?g = "(group_of st gid)\<lparr>msgs := msgs (group_of st gid) @ [m],
              count := (case parts_count p of Some c \<Rightarrow> Some c | None \<Rightarrow> count (group_of st gid))\<rparr>"
  from p have d0: "(case parts_count p of Some c \<Rightarrow> Some c | None \<Rightarrow> count (group_of st gid))
                     = declared (count (group_of st gid)) [m]"
    by simp
  from addMessageToGroup_returns[OF assms(3)]
  obtain st1 grp where g1: "addMessageToGroup h st gid m p = Inr (st1, grp)"
    by blast
  from addMessageToGroup_group[OF g1] assms(5) d0
  have "count grp \<noteq> Some (int (length (msgs grp)))" by simp
  with addMessageToPending_step[OF p g1, of n] assms(1) hp
  have "on_input h n st m = st1"
    by (simp add: on_input_def processMessage_def)
  with overflows_addMessageToGroup[OF g1] assms(2)
  have no: "\<not> (0 < getMaxKeptCount h \<and> getMaxKeptCount h < pendingCount st + 1)"
    by (auto split: if_splits)
  note g = addMessageToGroup_stored[where p = p and msg = m, OF assms(3) no refl]
  from p have d: "declared (count (group_of st gid)) [m]
                    = (case parts_count p of Some c \<Rightarrow> Some c | None \<Rightarrow> count (group_of st gid))"
    by simp
  from assms(5) d have "count ?g \<noteq> Some (int (length (msgs ?g)))" by simp
  with addMessageToPending_step[OF p g, of n] assms(1) hp d show ?thesis
    by (simp add: on_input_def processMessage_def)
qed

lemma declared_append: "declared c (xs @ ys) = declared (declared c xs) ys"
  by (induction xs arbitrary: c) simp_all

lemma group_of_cong:
  "map_of (pendingIn a) gid = map_of (pendingIn b) gid \<Longrightarrow>
   msgs (group_of a gid) = msgs (group_of b gid) \<and> count (group_of a gid) = count (group_of b gid)"
  by (simp add: group_of_def split: option.splits)

text \<open>
  A trace of inputs that reports no overflow and during which the group \<open>gid\<close> never
  becomes complete:
  afterwards the group holds what it held before and every fragment of the trace, in the
  order of arrival, and knows the count declared last. Other messages may come in between.
\<close>

lemma inputs_group:
  assumes "needsCount n" and "overflows (inputs h n st ms) = overflows st" and "\<not> inherited gid"
    and "\<forall>j. 0 < j \<and> j \<le> length ms \<longrightarrow>
           declared (count (group_of st gid)) (group_fragments gid (take j ms))
             \<noteq> Some (int (length (msgs (group_of st gid) @ group_fragments gid (take j ms))))"
  shows "msgs (group_of (inputs h n st ms) gid) = msgs (group_of st gid) @ group_fragments gid ms
         \<and> count (group_of (inputs h n st ms) gid)
             = declared (count (group_of st gid)) (group_fragments gid ms)
         \<and> ((\<forall>m \<in> set ms. is_fragment_of gid m) \<longrightarrow> out (inputs h n st ms) = out st)"
  using assms(2,4)
proof (induction ms rule: rev_induct)
  case Nil
  then show ?case by (simp add: group_fragments_def)
next
  case (snoc m ms)
  let ?s = "inputs h n st ms"
  let ?frs = "group_fragments gid ms"
  from snoc.prems(1) overflows_inputs[of st h n ms] overflows_on_input[of ?s h n m]
  have quiet: "overflows ?s = overflows st" and calm: "overflows (on_input h n ?s m) = overflows ?s"
    by (simp_all add: inputs_snoc)
  have "\<forall>j. 0 < j \<and> j \<le> length ms \<longrightarrow>
           declared (count (group_of st gid)) (group_fragments gid (take j ms))
             \<noteq> Some (int (length (msgs (group_of st gid) @ group_fragments gid (take j ms))))"
  proof (intro allI impI)
    fix j assume j: "0 < j \<and> j \<le> length ms"
    then have "take j (ms @ [m]) = take j ms" by simp
    with snoc.prems(2) j show "declared (count (group_of st gid)) (group_fragments gid (take j ms))
             \<noteq> Some (int (length (msgs (group_of st gid) @ group_fragments gid (take j ms))))"
      by (metis le_SucI length_append_singleton)
  qed
  from snoc.IH[OF quiet this]
  have ih: "msgs (group_of ?s gid) = msgs (group_of st gid) @ ?frs"
    "count (group_of ?s gid) = declared (count (group_of st gid)) ?frs"
    "(\<forall>m \<in> set ms. is_fragment_of gid m) \<longrightarrow> out ?s = out st"
    by simp_all
  show ?case
  proof (cases "is_fragment_of gid m")
    case False
    from on_input_other[OF calm False]
    have "msgs (group_of (on_input h n ?s m) gid) = msgs (group_of ?s gid)
          \<and> count (group_of (on_input h n ?s m) gid) = count (group_of ?s gid)"
      by (rule group_of_cong)
    with ih False show ?thesis
      by (auto simp: inputs_snoc group_fragments_def)
  next
    case True
    from snoc.prems(2)[rule_format, of "Suc (length ms)"] True
    have "declared (count (group_of st gid)) (?frs @ [m])
            \<noteq> Some (int (length (msgs (group_of st gid) @ ?frs @ [m])))"
      by (simp add: group_fragments_def)
    with ih have nc: "declared (count (group_of ?s gid)) [m]
                        \<noteq> Some (int (length (msgs (group_of ?s gid) @ [m])))"
      by (simp add: declared_append)
    define G where "G = (group_of ?s gid)\<lparr>msgs := msgs (group_of ?s gid) @ [m],
                                            count := declared (count (group_of ?s gid)) [m]\<rparr>"
    from on_input_buffers[OF assms(1) calm assms(3) True nc]
    have eq: "on_input h n ?s m =
                ?s\<lparr>pendingIn := AList.update gid G (pendingIn ?s),
                    pendingId := (if map_of (pendingIn ?s) gid = None
                                  then pendingId ?s + 1 else pendingId ?s),
                    pendingCount := pendingCount ?s + 1\<rparr>"
      by (simp add: G_def)
    have "group_of (on_input h n ?s m) gid = G"
      unfolding eq by (simp add: group_of_def update_conv')
    then have "msgs (group_of (on_input h n ?s m) gid) = msgs (group_of st gid) @ ?frs @ [m]"
      and "count (group_of (on_input h n ?s m) gid) = declared (count (group_of st gid)) (?frs @ [m])"
      using ih by (simp_all add: G_def declared_append)
    moreover have "out (on_input h n ?s m) = out ?s"
      unfolding eq by simp
    ultimately show ?thesis
      using ih True by (simp add: inputs_snoc group_fragments_def)
  qed
qed

text \<open>
  C5. A router that buffers fragments, and a group identity that is no inherited property
  name. Take any trace of inputs that reports no overflow and during which the group never
  becomes complete, and a fragment \<open>f\<close> of the group after it, for which the buffers have
  room, and with which the count declared last (on whichever fragment, also the first one of
  the group) equals the number of fragments accumulated. Before \<open>f\<close> every fragment of the
  group is still buffered and none has been released (a trace of such fragments only has
  sent nothing). With \<open>f\<close> the handler passes all accumulated fragments through
  \<^verbatim>\<open>processMessage(msg, false)\<close>, in the order of arrival, each with \<^verbatim>\<open>parts.count\<close>
  overwritten by that count, and afterwards \<^verbatim>\<open>pendingIn\<close> has no group for the identity.
  Without a bound every trace is one that reports no overflow (lemma \<open>overflows_unbounded\<close>).
\<close>

theorem split_side_release:
  assumes "needsCount n" and "overflows s = overflows st" and "\<not> inherited gid"
    and "getMaxKeptCount h \<le> 0 \<or> pendingCount s < getMaxKeptCount h"
    and "parts f = Some p" and "parts_id p = Some gid" and "parts_index p = Some k"
    and "\<forall>j. 0 < j \<and> j \<le> length ms \<longrightarrow>
           declared (count (group_of st gid)) (group_fragments gid (take j ms))
             \<noteq> Some (int (length (msgs (group_of st gid) @ group_fragments gid (take j ms))))"
    and "fragments = msgs (group_of st gid) @ group_fragments gid ms @ [f]"
    and "declared (count (group_of st gid)) (group_fragments gid ms @ [f]) = Some known"
    and "known = int (length fragments)"
    and "s = inputs h n st ms"
  shows "msgs (group_of s gid) = msgs (group_of st gid) @ group_fragments gid ms
         \<and> ((\<forall>m \<in> set ms. is_fragment_of gid m) \<longrightarrow> out s = out st)
         \<and> on_input h n s f =
             (let released = map (\<lambda>m. m\<lparr>parts := map_option (\<lambda>q. q\<lparr>parts_count := Some known\<rparr>) (parts m)\<rparr>)
                               fragments;
                  s1 = s\<lparr>pendingIn := AList.update gid
                                          ((group_of s gid)\<lparr>msgs := fragments, count := Some known\<rparr>)
                                          (pendingIn s),
                         pendingId := (if map_of (pendingIn s) gid = None
                                       then pendingId s + 1 else pendingId s),
                         pendingCount := pendingCount s + 1\<rparr>;
                  s2 = foldl (\<lambda>x m. processMessage h n x m False) s1 released
              in s2\<lparr>pendingCount := pendingCount s2 - known,
                     pendingIn := AList.delete gid (pendingIn s2)\<rparr>)
         \<and> map_of (pendingIn (on_input h n s f)) gid = None"
proof -
  from assms(2,12) have "overflows (inputs h n st ms) = overflows st" by simp
  from inputs_group[OF assms(1) this assms(3,8)] assms(12)
  have grp: "msgs (group_of s gid) = msgs (group_of st gid) @ group_fragments gid ms"
    "count (group_of s gid) = declared (count (group_of st gid)) (group_fragments gid ms)"
    and quiet: "(\<forall>m \<in> set ms. is_fragment_of gid m) \<longrightarrow> out s = out st"
    by simp_all
  from assms(5-7) have hp: "has_parts f" by (simp add: has_parts_def)
  from assms(5) grp(2) assms(10)
  have kn: "(case parts_count p of Some c \<Rightarrow> Some c | None \<Rightarrow> count (group_of s gid)) = Some known"
    by (simp add: declared_append split: option.splits)
  from assms(4) have no: "\<not> (0 < getMaxKeptCount h \<and> getMaxKeptCount h < pendingCount s + 1)"
    by auto
  let ?g = "(group_of s gid)\<lparr>msgs := fragments, count := Some known\<rparr>"
  let ?s1 = "s\<lparr>pendingIn := AList.update gid ?g (pendingIn s),
               pendingId := (if map_of (pendingIn s) gid = None then pendingId s + 1 else pendingId s),
               pendingCount := pendingCount s + 1\<rparr>"
  from addMessageToGroup_stored[where p = p and msg = f, OF assms(3) no refl] kn grp(1) assms(9)
  have g: "addMessageToGroup h s gid f p = Inr (?s1, ?g)"
    by simp
  have sc: "set_count c = (\<lambda>m. m\<lparr>parts := map_option (\<lambda>q. q\<lparr>parts_count := c\<rparr>) (parts m)\<rparr>)" for c
    by (rule ext) (simp add: set_count_def)
  define s2 where
    "s2 = foldl (\<lambda>x m. processMessage h n x m False) ?s1
            (map (\<lambda>m. m\<lparr>parts := map_option (\<lambda>q. q\<lparr>parts_count := Some known\<rparr>) (parts m)\<rparr>) fragments)"
  from addMessageToPending_step[OF assms(5-7) g, of n] assms(11)
  have "addMessageToPending h n s f =
          Inr (s2\<lparr>pendingCount := pendingCount s2 - known,
                   pendingIn := AList.delete gid (pendingIn s2)\<rparr>, True)"
    unfolding s2_def sc by simp
  from on_input_added[OF assms(1) hp this]
  have step: "on_input h n s f =
             (let released = map (\<lambda>m. m\<lparr>parts := map_option (\<lambda>q. q\<lparr>parts_count := Some known\<rparr>) (parts m)\<rparr>)
                               fragments;
                  s2 = foldl (\<lambda>x m. processMessage h n x m False) ?s1 released
              in s2\<lparr>pendingCount := pendingCount s2 - known,
                     pendingIn := AList.delete gid (pendingIn s2)\<rparr>)"
    unfolding s2_def Let_def .
  then have gone: "map_of (pendingIn (on_input h n s f)) gid = None"
    by (simp add: Let_def delete_conv')
  from grp(1) quiet step gone show ?thesis
    by (simp add: Let_def)
qed

theorem split_side_release_witness:
  "out (inputs (demo_host\<lparr>nodeMessageBufferMaxLength := Some 4\<rparr>)
          (mk_node [mk_rule Op_tail (JNum 3) ''num''] ''true'' False True) initial_state
          [fragment (JStr ''c'') ''s'' 2 (Some 3), fragment (JStr ''x'') ''t'' 0 (Some 2),
           fragment (JStr ''a'') ''s'' 0 None]) = []
   \<and> on_input (demo_host\<lparr>nodeMessageBufferMaxLength := Some 4\<rparr>)
        (mk_node [mk_rule Op_tail (JNum 3) ''num''] ''true'' False True)
        (inputs (demo_host\<lparr>nodeMessageBufferMaxLength := Some 4\<rparr>)
           (mk_node [mk_rule Op_tail (JNum 3) ''num''] ''true'' False True)
           initial_state
           [fragment (JStr ''c'') ''s'' 2 (Some 3), fragment (JStr ''x'') ''t'' 0 (Some 2),
            fragment (JStr ''a'') ''s'' 0 None])
        (fragment (JStr ''b'') ''s'' 1 None)
       = initial_state
           \<lparr>previousValue := JStr ''b'', pendingCount := 1, pendingId := 2,
            pendingIn := [(''t'', \<lparr>count = Some 2, msgs = [fragment (JStr ''x'') ''t'' 0 (Some 2)],
                                  seq_no = 1\<rparr>)],
            out := [Send [Some (fragment (JStr ''c'') ''s'' 2 (Some 3))],
                    Send [Some (fragment (JStr ''a'') ''s'' 0 (Some 3))],
                    Send [Some (fragment (JStr ''b'') ''s'' 1 (Some 3))]]\<rparr>
   \<and> out (inputs (demo_host\<lparr>nodeMessageBufferMaxLength := Some 4\<rparr>)
           (mk_node [mk_rule Op_tail (JNum 3) ''num''] ''true'' False True)
            initial_state
            [fragment (JStr ''c'') ''s'' 2 (Some 5), fragment (JStr ''a'') ''s'' 0 (Some 3),
             fragment (JStr ''b'') ''s'' 1 None])
       = [Send [Some (fragment (JStr ''c'') ''s'' 2 (Some 3))],
          Send [Some (fragment (JStr ''a'') ''s'' 0 (Some 3))],
          Send [Some (fragment (JStr ''b'') ''s'' 1 (Some 3))]]"
proof -
  let ?h = "demo_host\<lparr>nodeMessageBufferMaxLength := Some 4\<rparr>"
  let ?n = "mk_node [mk_rule Op_tail (JNum 3) ''num''] ''true'' False True"
  let ?c = "fragment (JStr ''c'') ''s'' 2 (Some 3)"
  let ?x = "fragment (JStr ''x'') ''t'' 0 (Some 2)"
  let ?a = "fragment (JStr ''a'') ''s'' 0 None"
  let ?b = "fragment (JStr ''b'') ''s'' 1 None"
  let ?p = "\<lparr>parts_id = Some ''s'', parts_index = Some 1, parts_count = None\<rparr>"
  let ?s = "inputs ?h ?n initial_state [?c, ?x, ?a]"
  have s: "?s = initial_state\<lparr>pendingCount := 3, pendingId := 2,
             pendingIn := [(''s'', \<lparr>count = Some 3, msgs = [?c, ?a], seq_no = 0\<rparr>),
                           (''t'', \<lparr>count = Some 2, msgs = [?x], seq_no = 1\<rparr>)]\<rparr>"
    by (simp add: run_defs)
  have h1: "needsCount ?n" and h3: "\<not> inherited ''s''"
    by (simp_all add: run_defs)
  have h2: "overflows ?s = overflows initial_state"
    unfolding s by (simp add: overflows_def initial_state_def)
  have room: "getMaxKeptCount ?h \<le> 0 \<or> pendingCount ?s < getMaxKeptCount ?h"
    unfolding s by (simp add: getMaxKeptCount_def)
  have h4: "parts ?b = Some ?p" and h5: "parts_id ?p = Some ''s''" and h6: "parts_index ?p = Some 1"
    by (simp_all add: fragment_def)
  have g0: "group_of initial_state ''s'' = \<lparr>count = None, msgs = [], seq_no = 0\<rparr>"
    by (simp add: group_of_def initial_state_def)
  have fr: "group_fragments ''s'' [?c, ?x, ?a] = [?c, ?a]"
    "group_fragments ''s'' [?c, ?x] = [?c]" "group_fragments ''s'' [?c] = [?c]"
    by (simp_all add: group_fragments_def is_fragment_of_def fragment_def)
  have js: "j = 1 \<or> j = 2 \<or> j = 3" if "0 < j \<and> j \<le> length [?c, ?x, ?a]" for j :: nat
    using that by auto
  have h7: "\<forall>j. 0 < j \<and> j \<le> length [?c, ?x, ?a] \<longrightarrow>
           declared (count (group_of initial_state ''s'')) (group_fragments ''s'' (take j [?c, ?x, ?a]))
             \<noteq> Some (int (length (msgs (group_of initial_state ''s'')
                                    @ group_fragments ''s'' (take j [?c, ?x, ?a]))))"
  proof (intro allI impI)
    fix j :: nat assume "0 < j \<and> j \<le> length [?c, ?x, ?a]"
    from js[OF this]
    show "declared (count (group_of initial_state ''s'')) (group_fragments ''s'' (take j [?c, ?x, ?a]))
             \<noteq> Some (int (length (msgs (group_of initial_state ''s'')
                                    @ group_fragments ''s'' (take j [?c, ?x, ?a]))))"
      by (elim disjE) (simp_all add: g0 fr, simp_all add: fragment_def)
  qed
  have h8: "[?c, ?a, ?b] = msgs (group_of initial_state ''s'') @ group_fragments ''s'' [?c, ?x, ?a] @ [?b]"
    by (simp add: g0 fr)
  have h9: "declared (count (group_of initial_state ''s'')) (group_fragments ''s'' [?c, ?x, ?a] @ [?b]) = Some 3"
    by (simp add: g0 fr) (simp add: fragment_def)
  have h10: "(3::int) = int (length [?c, ?a, ?b])"
    by simp
  from split_side_release[OF h1 h2 h3 room h4 h5 h6 h7 h8 h9 h10 refl]
  have "on_input ?h ?n ?s ?b =
             (let released = map (\<lambda>m. m\<lparr>parts := map_option (\<lambda>q. q\<lparr>parts_count := Some 3\<rparr>) (parts m)\<rparr>)
                               [?c, ?a, ?b];
                  s1 = ?s\<lparr>pendingIn := AList.update ''s''
                                          ((group_of ?s ''s'')\<lparr>msgs := [?c, ?a, ?b], count := Some 3\<rparr>)
                                          (pendingIn ?s),
                         pendingId := (if map_of (pendingIn ?s) ''s'' = None
                                       then pendingId ?s + 1 else pendingId ?s),
                         pendingCount := pendingCount ?s + 1\<rparr>;
                  s2 = foldl (\<lambda>x m. processMessage ?h ?n x m False) s1 released
              in s2\<lparr>pendingCount := pendingCount s2 - 3,
                     pendingIn := AList.delete ''s'' (pendingIn s2)\<rparr>)"
    by blast
  then have second: "on_input ?h ?n ?s ?b
       = initial_state
           \<lparr>previousValue := JStr ''b'', pendingCount := 1, pendingId := 2,
            pendingIn := [(''t'', \<lparr>count = Some 2, msgs = [?x], seq_no = 1\<rparr>)],
            out := [Send [Some (fragment (JStr ''c'') ''s'' 2 (Some 3))],
                    Send [Some (fragment (JStr ''a'') ''s'' 0 (Some 3))],
                    Send [Some (fragment (JStr ''b'') ''s'' 1 (Some 3))]]\<rparr>"
    unfolding s by (simp add: run_defs)
  have first: "out ?s = []"
    unfolding s by (simp add: initial_state_def)
  have third: "out (inputs ?h ?n initial_state
            [fragment (JStr ''c'') ''s'' 2 (Some 5), fragment (JStr ''a'') ''s'' 0 (Some 3), ?b])
       = [Send [Some (fragment (JStr ''c'') ''s'' 2 (Some 3))],
          Send [Some (fragment (JStr ''a'') ''s'' 0 (Some 3))],
          Send [Some (fragment (JStr ''b'') ''s'' 1 (Some 3))]]"
    by (simp add: run_defs)
  from first second third show ?thesis by blast
qed

subsection \<open>Where the code leaves the specification\<close>

text \<open>
  A fragment that exceeds the bound and does not complete its group: the buffers are
  emptied, the counters reset, the one error reported, and nothing is released or sent.
\<close>

lemma split_side_overflow_discards:
  assumes "parts msg = Some p" and "parts_id p = Some gid" and "parts_index p = Some k"
    and "needsCount n" and "\<not> inherited gid"
    and "0 < getMaxKeptCount h" and "getMaxKeptCount h < pendingCount st + 1"
    and "(case parts_count p of Some c \<Rightarrow> Some c | None \<Rightarrow> count (group_of st gid))
           \<noteq> Some (int (length (msgs (group_of st gid) @ [msg])))"
  shows "on_input h n st msg = (clearPending st)\<lparr>out := out st @ [Error_too_many msg]\<rparr>"
proof -
  from assms(1-3) have hp: "has_parts msg"
    by (simp add: has_parts_def)
  from addMessageToGroup_returns[OF assms(5)]
  obtain st1 grp where g: "addMessageToGroup h st gid msg p = Inr (st1, grp)"
    by blast
  from g assms(5-7) have st1: "st1 = (clearPending st)\<lparr>out := out st @ [Error_too_many msg]\<rparr>"
    by (auto simp: addMessageToGroup_def Let_def clearPending_def split: option.splits)
  from addMessageToGroup_group[OF g] assms(8)
  have "count grp \<noteq> Some (int (length (msgs grp)))"
    by simp
  with assms(1-4) hp g st1 show ?thesis
    by (simp add: on_input_def processMessage_def addMessageToPending_def)
qed

text \<open>
  C1. The bound is one message and the only rule is \<^verbatim>\<open>tail\<close>, so fragments are buffered. The
  second fragment of a group of two exceeds the bound: the buffers are emptied and the error
  is reported, but \<^verbatim>\<open>addMessageToGroup\<close> still returns the group it held, the group is
  complete, and both fragments go through the rules and are sent; \<^verbatim>\<open>pendingCount\<close> ends at
  \<open>-2\<close>.
\<close>

theorem overflow_releases_group:
  "on_input (demo_host\<lparr>nodeMessageBufferMaxLength := Some 1\<rparr>)
     (mk_node [mk_rule Op_tail (JNum 1) ''num''] ''true'' False True)
     (on_input (demo_host\<lparr>nodeMessageBufferMaxLength := Some 1\<rparr>)
        (mk_node [mk_rule Op_tail (JNum 1) ''num''] ''true'' False True)
        initial_state (fragment (JNum 1) ''g'' 0 (Some 2)))
     (fragment (JNum 7) ''g'' 1 (Some 2))
   = initial_state
       \<lparr>previousValue := JNum 7, pendingCount := - 2,
        out := [Error_too_many (fragment (JNum 7) ''g'' 1 (Some 2)),
                Send [None],
                Send [Some (fragment (JNum 7) ''g'' 1 (Some 2))]]\<rparr>"
  by (simp add: run_defs)

text \<open>
  A positional rule on a message whose \<^verbatim>\<open>parts\<close> block has no \<^verbatim>\<open>index\<close>: it does not match,
  \<^verbatim>\<open>elseflag\<close> stays as it is and the loop goes on.
\<close>

lemma positional_rule_without_index:
  assumes "parts msg = Some p" and "parts_index p = None"
    and "rule_t r = Op_head \<or> rule_t r = Op_tail \<or> rule_t r = Op_index"
    and "rule_turn h n prev msg hp tested i r bs ef ow = (bs', Inr (ef', ow', stop))"
  shows "ow' = ow @ [None] \<and> ef' = ef \<and> \<not> stop"
  using assms unfolding rule_turn_def
  by (auto simp: Let_def split: prod.splits sum.splits if_splits)

text \<open>
  C4. The only rule is \<^verbatim>\<open>head\<close> with the bound 2. A message without \<^verbatim>\<open>parts\<close> makes the
  operator read \<^verbatim>\<open>index\<close> of \<^verbatim>\<open>undefined\<close>: the pass ends with a warning and sends nothing.
  A message whose \<^verbatim>\<open>parts\<close> block has no \<^verbatim>\<open>index\<close> does not match and is sent on as the
  claim says.
\<close>

theorem positional_rule_without_parts:
  "on_input demo_host (mk_node [mk_rule Op_head (JNum 2) ''num''] ''true'' False False)
     initial_state (plain (JNum 1))
     = initial_state\<lparr>out := [Warn type_error]\<rparr>
   \<and> on_input demo_host (mk_node [mk_rule Op_head (JNum 2) ''num''] ''true'' False False)
       initial_state
       ((plain (JNum 1))\<lparr>parts := Some \<lparr>parts_id = None, parts_index = None, parts_count = None\<rparr>\<rparr>)
     = initial_state\<lparr>previousValue := JNum 1, out := [Send [None]]\<rparr>"
  by (simp add: run_defs)

text \<open>
  \<^verbatim>\<open>sendGroup\<close> on decision arrays that all have one slot per port, as the exhaustive loop
  leaves them: one \<^verbatim>\<open>node.send\<close> per fragment, in the order of the fragments; a message of
  port \<open>j\<close> carries the identity generated for \<open>j\<close>, as index the number of earlier
  fragments routed to \<open>j\<close>, and as count the number of all fragments routed to \<open>j\<close>.
\<close>

lemma group_counts_exhaustive:
  assumes "\<forall>onward \<in> set onwards. length onward = N" and "j < N"
  shows "group_counts onwards N ! j = int (length (filter (\<lambda>onward. onward ! j \<noteq> None) onwards))"
proof -
  have "filter (\<lambda>onward. \<not> slot_is_null onward j) onwards = filter (\<lambda>onward. onward ! j \<noteq> None) onwards"
    using assms by (intro filter_cong) (auto simp: slot_is_null_def)
  with assms(2) show ?thesis
    by (simp add: group_counts_def)
qed

lemma sendGroup_loop_exhaustive:
  assumes "\<forall>onward \<in> set onwards. length onward = N" and "length indexes = N"
  shows "sendGroup_loop ids counts N indexes onwards =
         map (\<lambda>i. Send (map (\<lambda>j. case onwards ! i ! j of
                                     None \<Rightarrow> None
                                   | Some m \<Rightarrow>
                                       Some (set_parts m (ids ! j)
                                         (indexes ! j
                                          + int (length (filter (\<lambda>onward. onward ! j \<noteq> None) (take i onwards))))
                                         (counts ! j)))
                         [0..<N]))
             [0..<length onwards]"
  using assms
proof (induction onwards arbitrary: indexes)
  case Nil
  then show ?case by simp
next
  case (Cons onward rest)
  define burst where "burst = (\<lambda>os ixs i.
      Send (map (\<lambda>j. case os ! i ! j of
                        None \<Rightarrow> None
                      | Some m \<Rightarrow>
                          Some (set_parts m (ids ! j)
                            (ixs ! j + int (length (filter (\<lambda>onward. onward ! j \<noteq> None) (take i os))))
                            (counts ! j)))
             [0..<N]))"
  define nxt where
    "nxt = map (\<lambda>j. if slot_msg onward j = None then indexes ! j else indexes ! j + 1) [0..<N]"
  from Cons.prems have len: "length onward = N" and rest: "\<forall>onward \<in> set rest. length onward = N"
    by simp_all
  have nlen: "length nxt = N" by (simp add: nxt_def)
  have head: "Send (map (\<lambda>j. case slot_msg onward j of
                         Some m \<Rightarrow> Some (set_parts m (ids ! j) (indexes ! j) (counts ! j))
                       | None \<Rightarrow> None) [0..<N])
              = burst (onward # rest) indexes 0"
    using len by (auto simp: burst_def slot_msg_def split: option.splits)
  have step: "burst rest nxt i = burst (onward # rest) indexes (Suc i)" for i
    unfolding burst_def using len
    by (auto simp: nxt_def slot_msg_def add.assoc split: option.splits)
  have "sendGroup_loop ids counts N indexes (onward # rest) =
          burst (onward # rest) indexes 0 # sendGroup_loop ids counts N nxt rest"
    using head by (simp add: nxt_def)
  also have "sendGroup_loop ids counts N nxt rest = map (burst rest nxt) [0..<length rest]"
    using Cons.IH[OF rest nlen] by (simp add: burst_def)
  also have "\<dots> = map (\<lambda>i. burst (onward # rest) indexes (Suc i)) [0..<length rest]"
    using step by simp
  also have "burst (onward # rest) indexes 0 # \<dots> =
               map (burst (onward # rest) indexes) [0..<Suc (length rest)]"
    by (rule map_upt_Suc[symmetric])
  finally show ?case
    by (simp add: burst_def del: upt_Suc)
qed

lemma sendGroup_exhaustive:
  assumes "\<forall>onward \<in> set onwards. length onward = N"
  shows "out (sendGroup h st onwards N) =
         out st @
         map (\<lambda>i. Send (map (\<lambda>j. case onwards ! i ! j of
                                     None \<Rightarrow> None
                                   | Some m \<Rightarrow>
                                       Some (set_parts m (generateId h (idcalls st + j))
                                         (int (length (filter (\<lambda>onward. onward ! j \<noteq> None) (take i onwards))))
                                         (int (length (filter (\<lambda>onward. onward ! j \<noteq> None) onwards)))))
                         [0..<N]))
             [0..<length onwards]"
proof -
  have "sendGroup_loop (map (\<lambda>j. generateId h (idcalls st + j)) [0..<N]) (group_counts onwards N) N
          (replicate N 0) onwards =
        map (\<lambda>i. Send (map (\<lambda>j. case onwards ! i ! j of
                                     None \<Rightarrow> None
                                   | Some m \<Rightarrow>
                                       Some (set_parts m (map (\<lambda>j. generateId h (idcalls st + j)) [0..<N] ! j)
                                         (replicate N 0 ! j
                                          + int (length (filter (\<lambda>onward. onward ! j \<noteq> None) (take i onwards))))
                                         (group_counts onwards N ! j)))
                         [0..<N]))
             [0..<length onwards]"
    by (rule sendGroup_loop_exhaustive[OF assms]) simp
  also have "\<dots> =
        map (\<lambda>i. Send (map (\<lambda>j. case onwards ! i ! j of
                                     None \<Rightarrow> None
                                   | Some m \<Rightarrow>
                                       Some (set_parts m (generateId h (idcalls st + j))
                                         (int (length (filter (\<lambda>onward. onward ! j \<noteq> None) (take i onwards))))
                                         (int (length (filter (\<lambda>onward. onward ! j \<noteq> None) onwards)))))
                         [0..<N]))
             [0..<length onwards]"
    using group_counts_exhaustive[OF assms]
    by (intro map_cong refl arg_cong[where f = Send]) (auto split: option.splits)
  finally show ?thesis
    by (simp add: sendGroup_def Let_def)
qed

text \<open>
  C6. Sequence repair in first-match mode, rules \<^verbatim>\<open>true\<close> (port A) and \<^verbatim>\<open>false\<close> (port B),
  a group of two fragments with the payloads \<^verbatim>\<open>true\<close> and \<^verbatim>\<open>false\<close>. The decision array of
  the first fragment ends at port A, so the counting loop of \<^verbatim>\<open>sendGroup\<close> reads \<^verbatim>\<open>undefined\<close>
  for port B and counts it: the one message of port B carries the count 2. With the two
  payloads in the other order the last decision array ends at port A, \<^verbatim>\<open>sendGroup\<close> takes
  its length for the number of ports, and the fragment routed to port B is never sent. In
  exhaustive mode the same group gives each port its one message with index 0 and count 1.
\<close>

theorem repair_first_match_count:
  "out (inputs demo_host
          (mk_node [mk_rule Op_true JUndefined ''str'', mk_rule Op_false JUndefined ''str'']
             ''false'' True True)
          initial_state
          [fragment (JBool True) ''s'' 0 (Some 2), fragment (JBool False) ''s'' 1 (Some 2)])
   = [Send [Some (fragment (JBool True) ''g'' 0 (Some 1)), None],
      Send [None, Some (fragment (JBool False) ''gg'' 0 (Some 2))]]
   \<and> out (inputs demo_host
          (mk_node [mk_rule Op_true JUndefined ''str'', mk_rule Op_false JUndefined ''str'']
             ''false'' True True)
          initial_state
          [fragment (JBool False) ''s'' 0 (Some 2), fragment (JBool True) ''s'' 1 (Some 2)])
   = [Send [None], Send [Some (fragment (JBool True) ''g'' 0 (Some 1))]]
   \<and> out (inputs demo_host
          (mk_node [mk_rule Op_true JUndefined ''str'', mk_rule Op_false JUndefined ''str'']
             ''true'' True True)
          initial_state
          [fragment (JBool True) ''s'' 0 (Some 2), fragment (JBool False) ''s'' 1 (Some 2)])
   = [Send [Some (fragment (JBool True) ''g'' 0 (Some 1)), None],
      Send [None, Some (fragment (JBool False) ''gg'' 0 (Some 1))]]"
  by (simp add: run_defs)

text \<open>
  C9. Sequence repair with two rules and a group of one fragment. The fragment is counted
  when it enters \<^verbatim>\<open>pendingIn\<close> and when its decision array enters \<^verbatim>\<open>pendingOut\<close>;
  \<^verbatim>\<open>sendGroupMessages\<close> then subtracts the number of ports, \<^verbatim>\<open>onward.length\<close>, and
  \<^verbatim>\<open>addMessageToPending\<close> the one fragment: both buffers are empty and \<^verbatim>\<open>pendingCount\<close> is
  \<open>-1\<close>.
\<close>

theorem pendingCount_drifts:
  "pendingCount initial_state = int (buffered initial_state)
   \<and> buffered (on_input demo_host
        (mk_node [mk_rule Op_nnull JUndefined ''str'', mk_rule Op_nnull JUndefined ''str'']
           ''true'' True True)
        initial_state (fragment (JNum 1) ''g'' 0 (Some 1))) = 0
   \<and> pendingCount (on_input demo_host
        (mk_node [mk_rule Op_nnull JUndefined ''str'', mk_rule Op_nnull JUndefined ''str'']
           ''true'' True True)
        initial_state (fragment (JNum 1) ''g'' 0 (Some 1))) = - 1"
  by (simp add: run_defs buffered_def)

end
